theory Spec2Isabelle
  imports Main "HOL-Library.Sublist"
begin

section \<open>Merging streamed text with the final result text\<close>

text \<open>
  \<^verbatim>\<open>mergeTexts\<close> (agent-runner.ts) works on JavaScript strings. Only three string
  operations occur in it: the truthiness test (a string is falsy exactly when it is
  empty), \<^verbatim>\<open>endsWith\<close> and concatenation. All three act code unit by code unit, so a
  string is modelled as a list of characters, one per code unit.
\<close>

definition truthy :: "string \<Rightarrow> bool" where
  "truthy s = (s \<noteq> [])"

definition endsWith :: "string \<Rightarrow> string \<Rightarrow> bool" where
  "endsWith s t = (length t \<le> length s \<and> drop (length s - length t) s = t)"

definition newline :: string where
  "newline = [CHR 0x0A]"

definition mergeTexts :: "string \<Rightarrow> string \<Rightarrow> string" where
  "mergeTexts streamed result =
     (if \<not> truthy result then streamed
      else if \<not> truthy streamed then result
      else if endsWith streamed result then streamed
      else if endsWith result streamed then result
      else streamed @ newline @ result)"

section \<open>The worker session (PersistentRunner)\<close>

text \<open>
  persistent-runner.ts: one object owns a worker process, a FIFO queue of requests and
  the request in flight. The object is a record; every method and every event listener
  is a function from the record to the updated record. \<^verbatim>\<open>Date.now()\<close> is the
  argument \<open>now\<close>. A thrown exception is returned as a value next to the state the
  method had reached when it threw.

  What JavaScript does behind the scenes is kept in five fields that the class does not
  have: \<open>nextId\<close> numbers the requests in the order they are enqueued (the number
  stands for the promise of the request, that is for its \<^verbatim>\<open>resolve\<close>/\<^verbatim>\<open>reject\<close> pair),
  \<open>settled\<close> lists the calls of \<^verbatim>\<open>resolve\<close> and \<^verbatim>\<open>reject\<close> in the order they
  are made, \<open>timers\<close> holds the requests whose timeout timer is armed, and
  \<open>effects\<close> lists what was done to processes and which stream callbacks ran;
  \<open>spawned\<close> counts the calls of \<^verbatim>\<open>spawn\<close> and numbers the processes.

  Left out: the text of the system prompt and the command line; the line buffer of
  \<^verbatim>\<open>handleOutput\<close> (the event \<open>Message\<close> below is one parsed line handed to
  \<^verbatim>\<open>handleJsonMessage\<close>); the \<^verbatim>\<open>options\<close> of a queue item, which the class never reads.
\<close>

datatype error =
    CircuitOpen nat int
  | ProcessExited int
  | CircuitOpenQueued
  | Upstream string
  | TimedOut int
  | CancelledByUser
  | ShuttingDown
  | ProcessError string
  | NotAFunction string

datatype RunResult = RunResult string string

datatype settlement = Resolved RunResult | Rejected error

datatype effect =
    Spawn nat
  | Kill nat
  | StdinEnd nat
  | StdinWrite nat string
  | OnText nat string string
  | OnComplete nat RunResult
  | OnError nat error

record QueueItem =
  ident :: nat
  prompt :: string
  callbacks :: bool

record PersistentRunner =
  process :: "nat option"
  processAlive :: bool
  queue :: "QueueItem list"
  currentItem :: "QueueItem option"
  sessionId :: string
  fullText :: string
  shuttingDown :: bool
  cancelling :: bool
  crashCount :: nat
  lastCrashTime :: int
  timeoutMs :: int
  nextId :: nat
  spawned :: nat
  timers :: "nat list"
  settled :: "(nat \<times> settlement) list"
  effects :: "effect list"

definition MAX_CRASHES :: nat where
  "MAX_CRASHES = 3"

definition CRASH_WINDOW_MS :: int where
  "CRASH_WINDOW_MS = 60000"

text \<open>The constructor: no process, empty queue, counters at zero.\<close>

definition newRunner :: "int \<Rightarrow> PersistentRunner" where
  "newRunner tmo =
     \<lparr>process = None, processAlive = False, queue = [], currentItem = None,
      sessionId = [], fullText = [], shuttingDown = False, cancelling = False,
      crashCount = 0, lastCrashTime = 0, timeoutMs = tmo,
      nextId = 0, spawned = 0, timers = [], settled = [], effects = []\<rparr>"

text \<open>The tail of \<^verbatim>\<open>ensureProcess\<close>: \<^verbatim>\<open>spawn\<close>, then \<^verbatim>\<open>processAlive = true\<close>.\<close>

definition spawnProcess :: "PersistentRunner \<Rightarrow> nat \<times> PersistentRunner" where
  "spawnProcess r =
     (spawned r,
      r\<lparr>process := Some (spawned r), processAlive := True,
        spawned := Suc (spawned r), effects := effects r @ [Spawn (spawned r)]\<rparr>)"

definition ensureProcess :: "int \<Rightarrow> PersistentRunner \<Rightarrow> error + (nat \<times> PersistentRunner)" where
  "ensureProcess now r =
     (if process r \<noteq> None \<and> processAlive r then Inr (the (process r), r)
      else if MAX_CRASHES \<le> crashCount r then
        (if now - lastCrashTime r < CRASH_WINDOW_MS
         then Inl (CircuitOpen (crashCount r) (now - lastCrashTime r))
         else Inr (spawnProcess (r\<lparr>crashCount := 0\<rparr>)))
      else Inr (spawnProcess r))"

text \<open>
  \<^verbatim>\<open>this.currentItem?.resolve(..)\<close> and \<^verbatim>\<open>this.currentItem?.reject(..)\<close>: the call is
  recorded, and the wrapper that \<^verbatim>\<open>processNext\<close> put around the callbacks clears the
  timer of the item. Without an item in flight nothing happens.
\<close>

definition settleCurrent :: "settlement \<Rightarrow> PersistentRunner \<Rightarrow> PersistentRunner" where
  "settleCurrent s r =
     (case currentItem r of
        None \<Rightarrow> r
      | Some it \<Rightarrow>
          r\<lparr>settled := settled r @ [(ident it, s)],
            timers := removeAll (ident it) (timers r)\<rparr>)"

text \<open>\<^verbatim>\<open>this.currentItem?.callbacks?.onX?.(..)\<close>: the stream callbacks of the item in flight.\<close>

definition callCurrent :: "(nat \<Rightarrow> effect) \<Rightarrow> PersistentRunner \<Rightarrow> PersistentRunner" where
  "callCurrent f r =
     (case currentItem r of
        None \<Rightarrow> r
      | Some it \<Rightarrow> if callbacks it then r\<lparr>effects := effects r @ [f (ident it)]\<rparr> else r)"

text \<open>\<^verbatim>\<open>item.reject(..)\<close> for every item still in the queue (no timer is armed for them).\<close>

definition rejectQueued :: "error \<Rightarrow> PersistentRunner \<Rightarrow> PersistentRunner" where
  "rejectQueued e r =
     r\<lparr>settled := settled r @ map (\<lambda>it. (ident it, Rejected e)) (queue r), queue := []\<rparr>"

definition processNext :: "int \<Rightarrow> PersistentRunner \<Rightarrow> error option \<times> PersistentRunner" where
  "processNext now r =
     (if currentItem r \<noteq> None then (None, r)
      else case queue r of
        [] \<Rightarrow> (None, r)
      | item # rest \<Rightarrow>
          (let r1 = r\<lparr>currentItem := Some item, queue := rest, fullText := []\<rparr>
           in case ensureProcess now r1 of
                Inl e \<Rightarrow> (Some e, r1)
              | Inr (p, r2) \<Rightarrow>
                  (None, r2\<lparr>effects := effects r2 @ [StdinWrite p (prompt item)],
                             timers := timers r2 @ [ident item]\<rparr>)))"

text \<open>
  \<^verbatim>\<open>run\<close> and \<^verbatim>\<open>runStream\<close>: the executor of the new promise pushes the item and calls
  \<^verbatim>\<open>processNext\<close>. An exception thrown inside a promise executor rejects that promise.
\<close>

definition enqueue :: "bool \<Rightarrow> int \<Rightarrow> string \<Rightarrow> PersistentRunner \<Rightarrow> PersistentRunner" where
  "enqueue cb now p r =
     (let item = \<lparr>ident = nextId r, prompt = p, callbacks = cb\<rparr>;
          r1 = r\<lparr>queue := queue r @ [item], nextId := Suc (nextId r)\<rparr>
      in case processNext now r1 of
           (None, r2) \<Rightarrow> r2
         | (Some e, r2) \<Rightarrow> r2\<lparr>settled := settled r2 @ [(ident item, Rejected e)]\<rparr>)"

definition run :: "int \<Rightarrow> string \<Rightarrow> PersistentRunner \<Rightarrow> PersistentRunner" where
  "run = enqueue False"

definition runStream :: "int \<Rightarrow> string \<Rightarrow> PersistentRunner \<Rightarrow> PersistentRunner" where
  "runStream = enqueue True"

subsection \<open>Messages of the worker process\<close>

record JsonMessage =
  msg_type :: string
  session_id :: "string option"
  content :: "(string \<times> string option) list option"
  msg_result :: "string option"
  is_error :: bool

text \<open>A value of type \<^verbatim>\<open>string | undefined\<close> is truthy when it is a non-empty string.\<close>

definition truthyOpt :: "string option \<Rightarrow> bool" where
  "truthyOpt v = (case v of None \<Rightarrow> False | Some s \<Rightarrow> truthy s)"

definition setSessionFrom :: "JsonMessage \<Rightarrow> PersistentRunner \<Rightarrow> PersistentRunner" where
  "setSessionFrom m r =
     (if truthyOpt (session_id m) then r\<lparr>sessionId := the (session_id m)\<rparr> else r)"

definition appendBlock :: "string \<times> string option \<Rightarrow> PersistentRunner \<Rightarrow> PersistentRunner" where
  "appendBlock b r =
     (if fst b = ''text'' \<and> truthyOpt (snd b)
      then (let r1 = r\<lparr>fullText := fullText r @ the (snd b)\<rparr>
            in callCurrent (\<lambda>i. OnText i (the (snd b)) (fullText r1)) r1)
      else r)"

definition handleJsonMessage ::
  "int \<Rightarrow> JsonMessage \<Rightarrow> PersistentRunner \<Rightarrow> error option \<times> PersistentRunner" where
  "handleJsonMessage now m r =
     (let r1 = (if msg_type m = ''system'' then setSessionFrom m r else r);
          r2 = (if msg_type m = ''assistant''
                then (case content m of None \<Rightarrow> r1 | Some bs \<Rightarrow> fold appendBlock bs r1)
                else r1)
      in if msg_type m = ''result'' then
           (let r3 = setSessionFrom m r2;
                r4 = (if is_error m then
                        (let e = Upstream (if truthyOpt (msg_result m) then the (msg_result m)
                                           else ''Unknown error'')
                         in settleCurrent (Rejected e) (callCurrent (\<lambda>i. OnError i e) r3))
                      else
                        (let r5 = (if truthyOpt (msg_result m)
                                   then r3\<lparr>fullText := mergeTexts (fullText r3) (the (msg_result m))\<rparr>
                                   else r3);
                             res = RunResult (fullText r5) (sessionId r5)
                         in settleCurrent (Resolved res) (callCurrent (\<lambda>i. OnComplete i res) r5)))
            in processNext now (r4\<lparr>currentItem := None, fullText := []\<rparr>))
         else (None, r2))"

subsection \<open>Process events, timeout, cancellation, shutdown\<close>

definition onClose :: "int \<Rightarrow> int \<Rightarrow> PersistentRunner \<Rightarrow> error option \<times> PersistentRunner" where
  "onClose now code r =
     (let wasShuttingDown = shuttingDown r;
          r1 = r\<lparr>process := None, processAlive := False\<rparr>
      in if wasShuttingDown then (None, r1)
         else if cancelling r1 then
           (let r2 = r1\<lparr>cancelling := False\<rparr>
            in if queue r2 \<noteq> [] then processNext now r2 else (None, r2))
         else
           (let r2 = r1\<lparr>crashCount := Suc (crashCount r1), lastCrashTime := now\<rparr>;
                r3 = (if currentItem r2 \<noteq> None
                      then (settleCurrent (Rejected (ProcessExited code)) r2)\<lparr>currentItem := None\<rparr>
                      else r2)
            in if queue r3 \<noteq> [] \<and> crashCount r3 < MAX_CRASHES then processNext now r3
               else if MAX_CRASHES \<le> crashCount r3 then (None, rejectQueued CircuitOpenQueued r3)
               else (None, r3)))"

definition onError :: "string \<Rightarrow> PersistentRunner \<Rightarrow> PersistentRunner" where
  "onError err r =
     (let r1 = r\<lparr>process := None, processAlive := False\<rparr>
      in if currentItem r1 \<noteq> None
         then (settleCurrent (Rejected (ProcessError err)) r1)\<lparr>currentItem := None\<rparr>
         else r1)"

text \<open>\<^verbatim>\<open>this.process.kill(); this.process = null; this.processAlive = false\<close>, if there is a process.\<close>

definition killProcess :: "PersistentRunner \<Rightarrow> PersistentRunner" where
  "killProcess r =
     (case process r of
        None \<Rightarrow> r
      | Some p \<Rightarrow> r\<lparr>process := None, processAlive := False, effects := effects r @ [Kill p]\<rparr>)"

text \<open>The callback that \<^verbatim>\<open>processNext\<close> hands to \<^verbatim>\<open>setTimeout\<close>.\<close>

definition onTimeout :: "int \<Rightarrow> PersistentRunner \<Rightarrow> error option \<times> PersistentRunner" where
  "onTimeout now r =
     (if currentItem r \<noteq> None then
        (let e = TimedOut (timeoutMs r);
             r1 = (settleCurrent (Rejected e) (callCurrent (\<lambda>i. OnError i e) r))\<lparr>currentItem := None\<rparr>
         in processNext now (killProcess r1))
      else (None, r))"

text \<open>A timer fires only while it is armed; firing disarms it.\<close>

definition timerFires :: "int \<Rightarrow> nat \<Rightarrow> PersistentRunner \<Rightarrow> error option \<times> PersistentRunner" where
  "timerFires now i r =
     (if i \<in> set (timers r) then onTimeout now (r\<lparr>timers := removeAll i (timers r)\<rparr>)
      else (None, r))"

definition cancel :: "int \<Rightarrow> PersistentRunner \<Rightarrow> (error + bool) \<times> PersistentRunner" where
  "cancel now r =
     (if currentItem r = None then (Inr False, r)
      else
        (let e = CancelledByUser;
             r1 = (settleCurrent (Rejected e) (callCurrent (\<lambda>i. OnError i e) r))
                    \<lparr>currentItem := None, fullText := []\<rparr>
         in case process r1 of
              Some p \<Rightarrow> (Inr True, killProcess (r1\<lparr>cancelling := True\<rparr>))
            | None \<Rightarrow>
                (case processNext now r1 of
                   (None, r2) \<Rightarrow> (Inr True, r2)
                 | (Some x, r2) \<Rightarrow> (Inl x, r2))))"

definition shutdown :: "PersistentRunner \<Rightarrow> PersistentRunner" where
  "shutdown r =
     (case process r of
        None \<Rightarrow> r
      | Some p \<Rightarrow>
          (let r1 = r\<lparr>shuttingDown := True, effects := effects r @ [StdinEnd p]\<rparr>;
               r2 = rejectQueued ShuttingDown (killProcess r1)
           in if currentItem r2 \<noteq> None
              then (settleCurrent (Rejected ShuttingDown) r2)\<lparr>currentItem := None\<rparr>
              else r2))"

definition getCircuitBreakerStatus :: "int \<Rightarrow> PersistentRunner \<Rightarrow> bool \<times> nat \<times> int" where
  "getCircuitBreakerStatus now r =
     (MAX_CRASHES \<le> crashCount r \<and> now - lastCrashTime r < CRASH_WINDOW_MS,
      crashCount r, lastCrashTime r)"

definition resetCircuitBreaker :: "PersistentRunner \<Rightarrow> PersistentRunner" where
  "resetCircuitBreaker r = r\<lparr>crashCount := 0, lastCrashTime := 0\<rparr>"

subsection \<open>Histories of one session\<close>

text \<open>
  Everything that can happen to a session: a call of a public method, a line of output
  of the worker, a process event, a timer. Each event carries the time at which it
  happens. The close event of a killed process is an event of its own, delivered after
  the method that killed the process has returned, as Node delivers it. A history stops
  at the first exception that escapes. Two exceptions do not escape: one thrown in the
  executor of \<^verbatim>\<open>run\<close> or \<^verbatim>\<open>runStream\<close> rejects the promise, and one thrown under
  \<^verbatim>\<open>handleJsonMessage\<close> is caught by the \<^verbatim>\<open>try\<close> of \<^verbatim>\<open>handleOutput\<close> and logged.
\<close>

datatype event =
    Run string
  | RunStream string
  | Message JsonMessage
  | Close int
  | ProcError string
  | TimerFires nat
  | Cancel
  | Shutdown
  | ResetCircuitBreaker

fun step :: "int \<Rightarrow> event \<Rightarrow> PersistentRunner \<Rightarrow> error option \<times> PersistentRunner" where
  "step now (Run p) r = (None, run now p r)"
| "step now (RunStream p) r = (None, runStream now p r)"
| "step now (Message m) r = (None, snd (handleJsonMessage now m r))"
| "step now (Close code) r = onClose now code r"
| "step now (ProcError err) r = (None, onError err r)"
| "step now (TimerFires i) r = timerFires now i r"
| "step now Cancel r = (case cancel now r of (Inl e, r') \<Rightarrow> (Some e, r') | (Inr b, r') \<Rightarrow> (None, r'))"
| "step now Shutdown r = (None, shutdown r)"
| "step now ResetCircuitBreaker r = (None, resetCircuitBreaker r)"

fun exec :: "PersistentRunner \<Rightarrow> (int \<times> event) list \<Rightarrow> (error \<times> PersistentRunner) + PersistentRunner" where
  "exec r [] = Inr r"
| "exec r ((now, e) # es) =
     (case step now e r of
        (Some x, r') \<Rightarrow> Inl (x, r')
      | (None, r') \<Rightarrow> exec r' es)"

definition finalState :: "PersistentRunner \<Rightarrow> (int \<times> event) list \<Rightarrow> PersistentRunner" where
  "finalState r evs = (case exec r evs of Inl (x, r') \<Rightarrow> r' | Inr r' \<Rightarrow> r')"

definition escaped :: "PersistentRunner \<Rightarrow> (int \<times> event) list \<Rightarrow> error option" where
  "escaped r evs = (case exec r evs of Inl (x, r') \<Rightarrow> Some x | Inr r' \<Rightarrow> None)"

text \<open>The breaker is closed at the time of every event of the history.\<close>

fun breakerStaysClosed :: "PersistentRunner \<Rightarrow> (int \<times> event) list \<Rightarrow> bool" where
  "breakerStaysClosed r [] = True"
| "breakerStaysClosed r ((now, e) # es) =
     (\<not> fst (getCircuitBreakerStatus now r) \<and> breakerStaysClosed (snd (step now e r)) es)"

text \<open>The request in flight, as a list of at most one item.\<close>

definition inFlight :: "PersistentRunner \<Rightarrow> QueueItem list" where
  "inFlight r = (case currentItem r of None \<Rightarrow> [] | Some it \<Rightarrow> [it])"

text \<open>The requests that are not settled: the one in flight, then the queue.\<close>

definition pending :: "PersistentRunner \<Rightarrow> QueueItem list" where
  "pending r = inFlight r @ queue r"

text \<open>Only the request in flight has an armed timeout timer.\<close>

definition armedOk :: "PersistentRunner \<Rightarrow> bool" where
  "armedOk r = (set (timers r) \<subseteq> ident ` set (inFlight r))"

text \<open>
  The promises settled so far, in the order they were settled, followed by the request
  in flight and the queue, are the requests in the order they were enqueued.
\<close>

definition inOrder :: "PersistentRunner \<Rightarrow> bool" where
  "inOrder r = (map fst (settled r) @ map ident (pending r) = [0..<nextId r])"

section \<open>The session pool (RunnerManager)\<close>

text \<open>
  runner-manager.ts: a \<^verbatim>\<open>Map\<close> from channel id to pool entry. A JavaScript \<^verbatim>\<open>Map\<close> keeps
  its keys in insertion order and \<^verbatim>\<open>evictLRU\<close> walks it in that order, so the pool is an
  association list with distinct keys: \<^verbatim>\<open>set\<close> of a new key appends, \<^verbatim>\<open>delete\<close> filters.
  The field \<open>released\<close> is not in the class: it keeps every session that left the pool,
  as \<^verbatim>\<open>entry.runner.shutdown()\<close> left it. Of \<^verbatim>\<open>agentConfig\<close> only the timeout is kept.
\<close>

record PoolEntry =
  runner :: PersistentRunner
  lastUsed :: int

record RunOptions =
  skipPermissions_opt :: "bool option"
  sessionId_opt :: "string option"
  channelId_opt :: "string option"

record RunnerManager =
  pool :: "(string \<times> PoolEntry) list"
  maxProcesses :: int
  idleTimeoutMs :: int
  cleanupInterval :: bool
  agentConfig :: int
  released :: "(string \<times> PersistentRunner) list"

definition DEFAULT_CHANNEL :: string where
  "DEFAULT_CHANNEL = ''__default__''"

text \<open>The constructor; \<^verbatim>\<open>maxProcesses\<close> and \<^verbatim>\<open>idleTimeoutMs\<close> default to 10 and 30 minutes.\<close>

definition newManager :: "int \<Rightarrow> int option \<Rightarrow> int option \<Rightarrow> RunnerManager" where
  "newManager cfg maxP idle =
     \<lparr>pool = [],
      maxProcesses = (case maxP of None \<Rightarrow> 10 | Some n \<Rightarrow> n),
      idleTimeoutMs = (case idle of None \<Rightarrow> 30 * 60 * 1000 | Some n \<Rightarrow> n),
      cleanupInterval = True, agentConfig = cfg, released = []\<rparr>"

text \<open>\<^verbatim>\<open>entry.runner.shutdown(); this.pool.delete(channelId)\<close> for the entry of a key.\<close>

definition removeEntry :: "string \<Rightarrow> RunnerManager \<Rightarrow> RunnerManager" where
  "removeEntry k m =
     (case map_of (pool m) k of
        None \<Rightarrow> m
      | Some e \<Rightarrow>
          m\<lparr>pool := filter (\<lambda>x. fst x \<noteq> k) (pool m),
            released := released m @ [(k, shutdown (runner e))]\<rparr>)"

text \<open>
  The loop of \<^verbatim>\<open>evictLRU\<close>: \<open>oldestChannel\<close> starts as \<^verbatim>\<open>null\<close> and \<open>oldestTime\<close> as
  \<^verbatim>\<open>Infinity\<close>, both \<open>None\<close> here; every timestamp is below \<^verbatim>\<open>Infinity\<close>.
\<close>

definition scanStep :: "string \<times> PoolEntry \<Rightarrow> string option \<times> int option \<Rightarrow> string option \<times> int option" where
  "scanStep x acc =
     (if (case snd acc of None \<Rightarrow> True | Some oldestTime \<Rightarrow> lastUsed (snd x) < oldestTime)
      then (Some (fst x), Some (lastUsed (snd x)))
      else acc)"

definition scanOldest :: "(string \<times> PoolEntry) list \<Rightarrow> string option \<times> int option" where
  "scanOldest es = fold scanStep es (None, None)"

text \<open>\<^verbatim>\<open>if (oldestChannel)\<close> tests truthiness: \<^verbatim>\<open>null\<close> and the empty string both fail it.\<close>

definition evictLRU :: "RunnerManager \<Rightarrow> RunnerManager" where
  "evictLRU m =
     (case fst (scanOldest (pool m)) of
        None \<Rightarrow> m
      | Some k \<Rightarrow> if truthy k then removeEntry k m else m)"

definition getOrCreateRunner :: "int \<Rightarrow> string \<Rightarrow> RunnerManager \<Rightarrow> RunnerManager" where
  "getOrCreateRunner now k m =
     (case map_of (pool m) k of
        Some entry \<Rightarrow>
          m\<lparr>pool := map (\<lambda>x. if fst x = k then (k, (snd x)\<lparr>lastUsed := now\<rparr>) else x) (pool m)\<rparr>
      | None \<Rightarrow>
          (let m1 = (if maxProcesses m \<le> int (length (pool m)) then evictLRU m else m)
           in m1\<lparr>pool := pool m1 @ [(k, \<lparr>runner = newRunner (agentConfig m1), lastUsed = now\<rparr>)]\<rparr>))"

definition cleanupIdle :: "int \<Rightarrow> RunnerManager \<Rightarrow> RunnerManager" where
  "cleanupIdle now m =
     (let toRemove = map fst (filter (\<lambda>x. idleTimeoutMs m < now - lastUsed (snd x)) (pool m))
      in fold removeEntry toRemove m)"

text \<open>Calling a method of the session of a key that \<^verbatim>\<open>getOrCreateRunner\<close> returned.\<close>

definition onRunner :: "string \<Rightarrow> (PersistentRunner \<Rightarrow> PersistentRunner) \<Rightarrow> RunnerManager \<Rightarrow> RunnerManager" where
  "onRunner k f m =
     m\<lparr>pool := map (\<lambda>x. if fst x = k then (k, (snd x)\<lparr>runner := f (runner (snd x))\<rparr>) else x) (pool m)\<rparr>"

text \<open>
  \<^verbatim>\<open>run\<close> and \<^verbatim>\<open>runStream\<close> of the manager. With a truthy \<^verbatim>\<open>options.sessionId\<close> they call
  \<^verbatim>\<open>runner.setSessionId(options.sessionId)\<close>. The class \<^verbatim>\<open>PersistentRunner\<close> of
  persistent-runner.ts has the members \<^verbatim>\<open>run\<close>, \<^verbatim>\<open>runStream\<close>, \<^verbatim>\<open>cancel\<close>, \<^verbatim>\<open>shutdown\<close>,
  \<^verbatim>\<open>getSessionId\<close>, \<^verbatim>\<open>getQueueLength\<close>, \<^verbatim>\<open>isAlive\<close>, \<^verbatim>\<open>getCircuitBreakerStatus\<close>,
  \<^verbatim>\<open>resetCircuitBreaker\<close> and the private ones; neither it nor \<^verbatim>\<open>EventEmitter\<close> has a
  member \<^verbatim>\<open>setSessionId\<close>. Calling a missing member throws a \<^verbatim>\<open>TypeError\<close>; inside an
  \<^verbatim>\<open>async\<close> function that rejects the promise the function returns. The first component
  of the result is that rejection, if any.
\<close>

definition dispatch ::
  "bool \<Rightarrow> int \<Rightarrow> string \<Rightarrow> RunOptions \<Rightarrow> RunnerManager \<Rightarrow> error option \<times> RunnerManager" where
  "dispatch cb now p opts m =
     (let channelId = (case channelId_opt opts of None \<Rightarrow> DEFAULT_CHANNEL | Some c \<Rightarrow> c);
          m1 = getOrCreateRunner now channelId m
      in if truthyOpt (sessionId_opt opts)
         then (Some (NotAFunction ''setSessionId''), m1)
         else (None, onRunner channelId (enqueue cb now p) m1))"

definition run_mgr :: "int \<Rightarrow> string \<Rightarrow> RunOptions \<Rightarrow> RunnerManager \<Rightarrow> error option \<times> RunnerManager" where
  "run_mgr = dispatch False"

definition runStream_mgr :: "int \<Rightarrow> string \<Rightarrow> RunOptions \<Rightarrow> RunnerManager \<Rightarrow> error option \<times> RunnerManager" where
  "runStream_mgr = dispatch True"

definition destroy :: "string \<Rightarrow> RunnerManager \<Rightarrow> bool \<times> RunnerManager" where
  "destroy k m =
     (case map_of (pool m) k of
        Some entry \<Rightarrow> (True, removeEntry k m)
      | None \<Rightarrow> (False, m))"

definition shutdown_mgr :: "RunnerManager \<Rightarrow> RunnerManager" where
  "shutdown_mgr m =
     m\<lparr>cleanupInterval := False,
       released := released m @ map (\<lambda>x. (fst x, shutdown (runner (snd x)))) (pool m),
       pool := []\<rparr>"

subsection \<open>Histories of the pool\<close>

text \<open>
  The calls of the manager, the tick of its cleanup timer, and any event of a session
  that is in the pool (\<open>PoolEvent\<close>: output, process events and timers of that
  session, and \<^verbatim>\<open>cancel\<close>, which the manager forwards to sessions).
\<close>

datatype poolOp =
    PoolRun string RunOptions
  | PoolRunStream string RunOptions
  | PoolDestroy string
  | PoolCleanupTick
  | PoolShutdown
  | PoolEvent string event

fun poolStep :: "int \<Rightarrow> poolOp \<Rightarrow> RunnerManager \<Rightarrow> RunnerManager" where
  "poolStep now (PoolRun p opts) m = snd (run_mgr now p opts m)"
| "poolStep now (PoolRunStream p opts) m = snd (runStream_mgr now p opts m)"
| "poolStep now (PoolDestroy k) m = snd (destroy k m)"
| "poolStep now PoolCleanupTick m = (if cleanupInterval m then cleanupIdle now m else m)"
| "poolStep now PoolShutdown m = shutdown_mgr m"
| "poolStep now (PoolEvent k ev) m = onRunner k (\<lambda>r. snd (step now ev r)) m"

definition poolExec :: "RunnerManager \<Rightarrow> (int \<times> poolOp) list \<Rightarrow> RunnerManager" where
  "poolExec m ops = fold (\<lambda>(now, opn) m'. poolStep now opn m') ops m"

text \<open>The operation does not name the channel with the empty id.\<close>

fun nonEmptyChannel :: "poolOp \<Rightarrow> bool" where
  "nonEmptyChannel (PoolRun p opts) = (channelId_opt opts \<noteq> Some [])"
| "nonEmptyChannel (PoolRunStream p opts) = (channelId_opt opts \<noteq> Some [])"
| "nonEmptyChannel opn = True"

text \<open>Keys are distinct and non-empty, and the pool is within its capacity of at least 1.\<close>

definition poolOk :: "RunnerManager \<Rightarrow> bool" where
  "poolOk m =
     (distinct (map fst (pool m)) \<and> [] \<notin> set (map fst (pool m))
      \<and> 1 \<le> maxProcesses m \<and> int (length (pool m)) \<le> maxProcesses m)"

section \<open>Properties of the merge\<close>

lemma endsWith_suffix: "endsWith s t = suffix t s"
proof
  assume "endsWith s t"
  then have "s = take (length s - length t) s @ t"
    by (metis append_take_drop_id endsWith_def)
  then show "suffix t s"
    by (metis suffixI)
next
  assume "suffix t s"
  then obtain u where "s = u @ t"
    by (auto simp: suffix_def)
  then show "endsWith s t"
    by (simp add: endsWith_def)
qed

lemma endsWith_refl: "endsWith s s"
  by (simp add: endsWith_def)

lemma endsWith_Nil: "endsWith s []"
  by (simp add: endsWith_def)

lemma endsWith_antisym: "endsWith s t \<Longrightarrow> endsWith t s \<Longrightarrow> s = t"
  by (simp add: endsWith_suffix suffix_order.antisym)

lemma endsWith_of_Nil: "endsWith [] t \<Longrightarrow> t = []"
  by (simp add: endsWith_def)

text \<open>
  Claim C1. \<^verbatim>\<open>mergeTexts(streamed, final)\<close> follows the case rule of the specification:
  an empty final text gives the streamed text; an empty streamed text gives the final
  text; a streamed text that ends with the final text is returned as it is; a final text
  that ends with the streamed text is returned as it is; in every other case the result
  is the streamed text, a newline and the final text. The result is therefore always one
  of the three candidates.
\<close>

theorem mergeTexts_case_rule:
  "(final = [] \<longrightarrow> mergeTexts streamed final = streamed)
   \<and> (streamed = [] \<longrightarrow> mergeTexts streamed final = final)
   \<and> (endsWith streamed final \<longrightarrow> mergeTexts streamed final = streamed)
   \<and> (endsWith final streamed \<longrightarrow> mergeTexts streamed final = final)
   \<and> (final \<noteq> [] \<and> streamed \<noteq> [] \<and> \<not> endsWith streamed final \<and> \<not> endsWith final streamed
        \<longrightarrow> mergeTexts streamed final = streamed @ newline @ final)
   \<and> mergeTexts streamed final \<in> {streamed, final, streamed @ newline @ final}"
proof (intro conjI impI)
  show "mergeTexts streamed final = streamed" if "final = []"
    using that by (simp add: mergeTexts_def truthy_def)
  show "mergeTexts streamed final = final" if "streamed = []"
    using that by (simp add: mergeTexts_def truthy_def)
  show "mergeTexts streamed final = streamed" if "endsWith streamed final"
    using that endsWith_of_Nil [of final]
    by (auto simp: mergeTexts_def truthy_def)
  show "mergeTexts streamed final = final" if "endsWith final streamed"
    using that endsWith_of_Nil [of streamed] endsWith_antisym [of streamed final]
    by (auto simp: mergeTexts_def truthy_def)
  show "mergeTexts streamed final = streamed @ newline @ final"
    if "final \<noteq> [] \<and> streamed \<noteq> [] \<and> \<not> endsWith streamed final \<and> \<not> endsWith final streamed"
    using that by (simp add: mergeTexts_def truthy_def)
  show "mergeTexts streamed final \<in> {streamed, final, streamed @ newline @ final}"
    by (simp add: mergeTexts_def)
qed

theorem mergeTexts_case_rule_witness:
  "mergeTexts ''intro'' [] = ''intro''
   \<and> mergeTexts [] ''final'' = ''final''
   \<and> endsWith (''intro'' @ newline @ ''final'') ''final''
   \<and> mergeTexts (''intro'' @ newline @ ''final'') ''final'' = ''intro'' @ newline @ ''final''
   \<and> mergeTexts ''final'' (''intro'' @ newline @ ''final'') = ''intro'' @ newline @ ''final''
   \<and> \<not> endsWith ''before'' ''after'' \<and> \<not> endsWith ''after'' ''before''
   \<and> mergeTexts ''before'' ''after'' = ''before'' @ newline @ ''after''"
  using mergeTexts_case_rule [of "[]" "''intro''"]
    mergeTexts_case_rule [of "''final''" "[]"]
    mergeTexts_case_rule [of "''final''" "''intro'' @ newline @ ''final''"]
    mergeTexts_case_rule [of "''intro'' @ newline @ ''final''" "''final''"]
    mergeTexts_case_rule [of "''after''" "''before''"]
  by (simp add: endsWith_def newline_def)

text \<open>
  Claim C8. Merging a text with itself returns that text: \<^verbatim>\<open>mergeTexts(s, s) = s\<close>.
\<close>

theorem mergeTexts_idem: "mergeTexts s s = s"
  by (simp add: mergeTexts_def endsWith_refl)

section \<open>Invariants of a session\<close>


lemma ensureProcess_frame:
  "ensureProcess now r = Inr (p, r') \<Longrightarrow>
     settled r' = settled r \<and> queue r' = queue r \<and> currentItem r' = currentItem r
     \<and> nextId r' = nextId r \<and> timers r' = timers r"
  by (auto simp: ensureProcess_def spawnProcess_def split: if_splits)

lemma ensureProcess_closed:
  "\<not> fst (getCircuitBreakerStatus now r) \<Longrightarrow> \<exists>p r'. ensureProcess now r = Inr (p, r')"
  by (auto simp: ensureProcess_def getCircuitBreakerStatus_def spawnProcess_def)

lemma processNext_inOrder: "inOrder r \<Longrightarrow> inOrder (snd (processNext now r))"
  by (auto simp: processNext_def inOrder_def pending_def inFlight_def Let_def
      dest!: ensureProcess_frame split: list.splits sum.splits option.splits)

lemma processNext_closed:
  assumes "\<not> fst (getCircuitBreakerStatus now r)"
  shows "fst (processNext now r) = None"
proof (cases "currentItem r \<noteq> None \<or> queue r = []")
  case True
  then show ?thesis by (auto simp: processNext_def)
next
  case False
  then obtain item rest where q: "queue r = item # rest" and c: "currentItem r = None"
    by (cases "queue r") auto
  let ?r1 = "r\<lparr>currentItem := Some item, queue := rest, fullText := []\<rparr>"
  have "\<not> fst (getCircuitBreakerStatus now ?r1)"
    using assms by (simp add: getCircuitBreakerStatus_def)
  then obtain p r' where "ensureProcess now ?r1 = Inr (p, r')"
    using ensureProcess_closed by blast
  then show ?thesis
    using q c by (simp add: processNext_def)
qed

lemma callCurrent_frame [simp]:
  "settled (callCurrent f r) = settled r" "queue (callCurrent f r) = queue r"
  "currentItem (callCurrent f r) = currentItem r" "nextId (callCurrent f r) = nextId r"
  "crashCount (callCurrent f r) = crashCount r" "lastCrashTime (callCurrent f r) = lastCrashTime r"
  "process (callCurrent f r) = process r"
  by (auto simp: callCurrent_def split: option.splits)

lemma finish_inOrder:
  "inOrder r \<Longrightarrow> inOrder ((settleCurrent s r)\<lparr>currentItem := None\<rparr>)"
  by (auto simp: inOrder_def pending_def inFlight_def settleCurrent_def split: option.splits)

lemma finish_inOrder':
  "inOrder r \<Longrightarrow> inOrder ((settleCurrent s r)\<lparr>currentItem := None, fullText := t\<rparr>)"
  by (auto simp: inOrder_def pending_def inFlight_def settleCurrent_def split: option.splits)

lemma inOrder_cong:
  "settled r' = settled r \<Longrightarrow> queue r' = queue r \<Longrightarrow> currentItem r' = currentItem r \<Longrightarrow>
   nextId r' = nextId r \<Longrightarrow> inOrder r' = inOrder r"
  by (simp add: inOrder_def pending_def inFlight_def)

lemma status_cong:
  "crashCount r' = crashCount r \<Longrightarrow> lastCrashTime r' = lastCrashTime r \<Longrightarrow>
   getCircuitBreakerStatus now r' = getCircuitBreakerStatus now r"
  by (simp add: getCircuitBreakerStatus_def)

lemma enqueue_inOrder:
  assumes "inOrder r" "\<not> fst (getCircuitBreakerStatus now r)"
  shows "inOrder (enqueue cb now p r)"
proof -
  let ?item = "\<lparr>ident = nextId r, prompt = p, callbacks = cb\<rparr>"
  let ?r1 = "r\<lparr>queue := queue r @ [?item], nextId := Suc (nextId r)\<rparr>"
  have 1: "inOrder ?r1"
    using assms(1) by (simp add: inOrder_def pending_def inFlight_def)
  have "\<not> fst (getCircuitBreakerStatus now ?r1)"
    using assms(2) by (simp add: getCircuitBreakerStatus_def)
  then have 2: "fst (processNext now ?r1) = None"
    by (rule processNext_closed)
  have "enqueue cb now p r = snd (processNext now ?r1)"
    using 2 by (cases "processNext now ?r1") (auto simp: enqueue_def Let_def)
  then show ?thesis
    using processNext_inOrder [OF 1] by simp
qed

lemma setSessionFrom_frame [simp]:
  "settled (setSessionFrom m r) = settled r" "queue (setSessionFrom m r) = queue r"
  "currentItem (setSessionFrom m r) = currentItem r" "nextId (setSessionFrom m r) = nextId r"
  "crashCount (setSessionFrom m r) = crashCount r"
  "lastCrashTime (setSessionFrom m r) = lastCrashTime r"
  by (auto simp: setSessionFrom_def)

lemma appendBlock_frame [simp]:
  "settled (appendBlock b r) = settled r" "queue (appendBlock b r) = queue r"
  "currentItem (appendBlock b r) = currentItem r" "nextId (appendBlock b r) = nextId r"
  "crashCount (appendBlock b r) = crashCount r"
  "lastCrashTime (appendBlock b r) = lastCrashTime r"
  by (auto simp: appendBlock_def Let_def)

lemma fold_appendBlock_frame [simp]:
  "settled (fold appendBlock bs r) = settled r" "queue (fold appendBlock bs r) = queue r"
  "currentItem (fold appendBlock bs r) = currentItem r"
  "nextId (fold appendBlock bs r) = nextId r"
  "crashCount (fold appendBlock bs r) = crashCount r"
  "lastCrashTime (fold appendBlock bs r) = lastCrashTime r"
  by (induction bs arbitrary: r) auto

lemma settleCurrent_crash [simp]:
  "crashCount (settleCurrent s r) = crashCount r"
  "lastCrashTime (settleCurrent s r) = lastCrashTime r"
  "queue (settleCurrent s r) = queue r"
  "process (settleCurrent s r) = process r"
  by (auto simp: settleCurrent_def split: option.splits)

lemma killProcess_frame [simp]:
  "settled (killProcess r) = settled r" "queue (killProcess r) = queue r"
  "currentItem (killProcess r) = currentItem r" "nextId (killProcess r) = nextId r"
  "crashCount (killProcess r) = crashCount r" "lastCrashTime (killProcess r) = lastCrashTime r"
  by (auto simp: killProcess_def split: option.splits)

lemma inOrder_callCurrent: "inOrder r \<Longrightarrow> inOrder (callCurrent f r)"
  using inOrder_cong [of "callCurrent f r" r] by simp

lemma inOrder_setSessionFrom: "inOrder r \<Longrightarrow> inOrder (setSessionFrom m r)"
  using inOrder_cong [of "setSessionFrom m r" r] by simp

lemma inOrder_fold_appendBlock: "inOrder r \<Longrightarrow> inOrder (fold appendBlock bs r)"
  using inOrder_cong [of "fold appendBlock bs r" r] by simp

lemma inOrder_fullText: "inOrder r \<Longrightarrow> inOrder (r\<lparr>fullText := t\<rparr>)"
  by (simp add: inOrder_def pending_def inFlight_def)

lemma handleJsonMessage_inOrder:
  assumes "inOrder r"
  shows "inOrder (snd (handleJsonMessage now m r))"
  unfolding handleJsonMessage_def Let_def
  using assms
  by (auto split: option.splits
      intro!: processNext_inOrder inOrder_fullText finish_inOrder inOrder_callCurrent
        inOrder_setSessionFrom inOrder_fold_appendBlock)

lemma handleJsonMessage_closed:
  assumes "\<not> fst (getCircuitBreakerStatus now r)"
  shows "fst (handleJsonMessage now m r) = None"
  unfolding handleJsonMessage_def Let_def
  using assms
  by (auto intro!: processNext_closed simp: getCircuitBreakerStatus_def split: option.splits)

lemma rejectQueued_inOrder:
  "inOrder r \<Longrightarrow> currentItem r = None \<Longrightarrow> inOrder (rejectQueued e r)"
  by (simp add: inOrder_def pending_def inFlight_def rejectQueued_def comp_def)

lemma onClose_inOrder:
  assumes "inOrder r"
  shows "inOrder (snd (onClose now code r))"
proof -
  have f: "inOrder (x\<lparr>process := None, processAlive := False\<rparr>)" if "inOrder x" for x
    using that by (simp add: inOrder_def pending_def inFlight_def)
  have g: "inOrder (x\<lparr>cancelling := False\<rparr>)" if "inOrder x" for x
    using that by (simp add: inOrder_def pending_def inFlight_def)
  have h: "inOrder (x\<lparr>crashCount := c, lastCrashTime := t\<rparr>)" if "inOrder x" for x c t
    using that by (simp add: inOrder_def pending_def inFlight_def)
  show ?thesis
    unfolding onClose_def Let_def
    using assms
    by (auto intro!: processNext_inOrder rejectQueued_inOrder finish_inOrder f g h)
qed

lemma onClose_closed:
  assumes "\<not> fst (getCircuitBreakerStatus now r)"
  shows "fst (onClose now code r) = None"
  unfolding onClose_def Let_def
  using assms
  by (auto intro!: processNext_closed simp: getCircuitBreakerStatus_def MAX_CRASHES_def)

lemma onError_inOrder: "inOrder r \<Longrightarrow> inOrder (onError err r)"
proof -
  assume a: "inOrder r"
  have f: "inOrder (r\<lparr>process := None, processAlive := False\<rparr>)"
    using a by (simp add: inOrder_def pending_def inFlight_def)
  show ?thesis
    unfolding onError_def Let_def using f by (auto intro!: finish_inOrder)
qed

lemma onTimeout_inOrder: "inOrder r \<Longrightarrow> inOrder (snd (onTimeout now r))"
proof -
  assume a: "inOrder r"
  have k: "inOrder (killProcess x)" if "inOrder x" for x
    using that inOrder_cong [of "killProcess x" x] by simp
  have c: "inOrder (callCurrent f x)" if "inOrder x" for x f
    using that inOrder_cong [of "callCurrent f x" x] by simp
  show ?thesis
    unfolding onTimeout_def Let_def using a
    by (auto intro!: processNext_inOrder k finish_inOrder c)
qed

lemma onTimeout_closed:
  "\<not> fst (getCircuitBreakerStatus now r) \<Longrightarrow> fst (onTimeout now r) = None"
  unfolding onTimeout_def Let_def
  by (auto intro!: processNext_closed simp: getCircuitBreakerStatus_def)

lemma timerFires_inOrder: "inOrder r \<Longrightarrow> inOrder (snd (timerFires now i r))"
proof -
  assume a: "inOrder r"
  have "inOrder (r\<lparr>timers := ts\<rparr>)" for ts
    using a by (simp add: inOrder_def pending_def inFlight_def)
  then show ?thesis
    unfolding timerFires_def using a by (auto intro!: onTimeout_inOrder)
qed

lemma timerFires_closed:
  "\<not> fst (getCircuitBreakerStatus now r) \<Longrightarrow> fst (timerFires now i r) = None"
  unfolding timerFires_def
  by (auto intro!: onTimeout_closed simp: getCircuitBreakerStatus_def)

lemma cancel_inOrder: "inOrder r \<Longrightarrow> inOrder (snd (cancel now r))"
proof -
  assume a: "inOrder r"
  let ?r1 = "(settleCurrent (Rejected CancelledByUser)
                (callCurrent (\<lambda>i. OnError i CancelledByUser) r))\<lparr>currentItem := None, fullText := []\<rparr>"
  have "inOrder (callCurrent (\<lambda>i. OnError i CancelledByUser) r)"
    using a inOrder_cong [of "callCurrent (\<lambda>i. OnError i CancelledByUser) r" r] by simp
  then have 1: "inOrder ?r1" by (rule finish_inOrder')
  have 2: "inOrder (killProcess (?r1\<lparr>cancelling := True\<rparr>))"
    using 1 inOrder_cong [of "killProcess (?r1\<lparr>cancelling := True\<rparr>)" ?r1] by simp
  have 3: "inOrder (snd (processNext now ?r1))"
    using 1 by (rule processNext_inOrder)
  show ?thesis
    using a 2 3 unfolding cancel_def Let_def
    by (auto split: option.splits prod.splits)
qed

lemma cancel_closed:
  assumes "\<not> fst (getCircuitBreakerStatus now r)"
  shows "\<exists>b. fst (cancel now r) = Inr b"
proof -
  let ?r1 = "(settleCurrent (Rejected CancelledByUser)
                (callCurrent (\<lambda>i. OnError i CancelledByUser) r))\<lparr>currentItem := None, fullText := []\<rparr>"
  have "\<not> fst (getCircuitBreakerStatus now ?r1)"
    using assms by (simp add: getCircuitBreakerStatus_def)
  then have "fst (processNext now ?r1) = None" by (rule processNext_closed)
  then show ?thesis
    unfolding cancel_def Let_def
    by (cases "processNext now ?r1") (auto split: option.splits)
qed

lemma resetCircuitBreaker_inOrder: "inOrder r \<Longrightarrow> inOrder (resetCircuitBreaker r)"
  by (simp add: inOrder_def pending_def inFlight_def resetCircuitBreaker_def)

lemma step_inOrder:
  assumes "inOrder r" "\<not> fst (getCircuitBreakerStatus now r)" "e \<noteq> Shutdown"
  shows "inOrder (snd (step now e r))"
proof (cases e)
  case (Run p) then show ?thesis using assms by (simp add: run_def enqueue_inOrder)
next
  case (RunStream p) then show ?thesis using assms by (simp add: runStream_def enqueue_inOrder)
next
  case (Message m) then show ?thesis using assms by (simp add: handleJsonMessage_inOrder)
next
  case (Close c) then show ?thesis using assms by (simp add: onClose_inOrder)
next
  case (ProcError x) then show ?thesis using assms by (simp add: onError_inOrder)
next
  case (TimerFires i) then show ?thesis using assms by (simp add: timerFires_inOrder)
next
  case Cancel
  then show ?thesis
    using cancel_inOrder [OF assms(1), of now]
    by (cases "cancel now r") (auto split: sum.splits)
next
  case Shutdown then show ?thesis using assms by simp
next
  case ResetCircuitBreaker then show ?thesis using assms by (simp add: resetCircuitBreaker_inOrder)
qed

lemma step_closed:
  assumes "\<not> fst (getCircuitBreakerStatus now r)"
  shows "fst (step now e r) = None"
proof (cases e)
  case Cancel
  then show ?thesis
    using cancel_closed [OF assms] by (cases "cancel now r") auto
qed (use assms in \<open>simp_all add: handleJsonMessage_closed onClose_closed timerFires_closed\<close>)

lemma exec_inOrder:
  assumes "inOrder r" "breakerStaysClosed r evs" "Shutdown \<notin> snd ` set evs"
  shows "escaped r evs = None \<and> inOrder (finalState r evs)"
  using assms
proof (induction evs arbitrary: r)
  case Nil
  then show ?case by (simp add: escaped_def finalState_def)
next
  case (Cons a evs)
  obtain now e where a: "a = (now, e)" by (cases a)
  have c: "\<not> fst (getCircuitBreakerStatus now r)" and rest: "breakerStaysClosed (snd (step now e r)) evs"
    using Cons.prems(2) a by simp_all
  have ns: "e \<noteq> Shutdown" and nr: "Shutdown \<notin> snd ` set evs"
    using Cons.prems(3) a by auto
  obtain r' where s: "step now e r = (None, r')"
    using step_closed [OF c, of e] by (cases "step now e r") auto
  have "inOrder r'"
    using step_inOrder [OF Cons.prems(1) c ns] s by simp
  then have "escaped r' evs = None \<and> inOrder (finalState r' evs)"
    using Cons.IH rest nr s by simp
  then show ?case
    using s a by (simp add: escaped_def finalState_def)
qed


subsection \<open>Armed timers\<close>


lemma callCurrent_armed [simp]: "timers (callCurrent f r) = timers r"
  by (auto simp: callCurrent_def split: option.splits)

lemma processNext_armed: "armedOk r \<Longrightarrow> armedOk (snd (processNext now r))"
  by (auto simp: processNext_def armedOk_def inFlight_def Let_def
      dest!: ensureProcess_frame split: list.splits sum.splits option.splits)

lemma finish_armed: "armedOk r \<Longrightarrow> armedOk ((settleCurrent s r)\<lparr>currentItem := None\<rparr>)"
  by (cases "currentItem r") (auto simp: armedOk_def inFlight_def settleCurrent_def)

lemma armed_cong:
  "timers r' = timers r \<Longrightarrow> currentItem r' = currentItem r \<Longrightarrow> armedOk r' = armedOk r"
  by (simp add: armedOk_def inFlight_def)

lemma enqueue_armed: "armedOk r \<Longrightarrow> armedOk (enqueue cb now p r)"
proof -
  assume a: "armedOk r"
  let ?r1 = "r\<lparr>queue := queue r @ [\<lparr>ident = nextId r, prompt = p, callbacks = cb\<rparr>],
               nextId := Suc (nextId r)\<rparr>"
  have "armedOk ?r1" using a by (simp add: armedOk_def inFlight_def)
  then have "armedOk (snd (processNext now ?r1))" by (rule processNext_armed)
  then show ?thesis
    by (cases "processNext now ?r1") (auto simp: enqueue_def Let_def armedOk_def inFlight_def split: option.splits)
qed

lemma setSessionFrom_armed [simp]:
  "timers (setSessionFrom m r) = timers r" "currentItem (setSessionFrom m r) = currentItem r"
  by (auto simp: setSessionFrom_def)

lemma appendBlock_armed [simp]:
  "timers (appendBlock b r) = timers r" "currentItem (appendBlock b r) = currentItem r"
  by (auto simp: appendBlock_def Let_def)

lemma fold_appendBlock_armed [simp]:
  "timers (fold appendBlock bs r) = timers r"
  "currentItem (fold appendBlock bs r) = currentItem r"
  by (induction bs arbitrary: r) auto

lemma killProcess_armed [simp]:
  "timers (killProcess r) = timers r" "currentItem (killProcess r) = currentItem r"
  by (auto simp: killProcess_def split: option.splits)

lemma armed_callCurrent: "armedOk r \<Longrightarrow> armedOk (callCurrent f r)"
  by (simp add: armedOk_def inFlight_def)
lemma armed_setSessionFrom: "armedOk r \<Longrightarrow> armedOk (setSessionFrom m r)"
  by (simp add: armedOk_def inFlight_def)
lemma armed_fold_appendBlock: "armedOk r \<Longrightarrow> armedOk (fold appendBlock bs r)"
  by (simp add: armedOk_def inFlight_def)
lemma armed_killProcess: "armedOk r \<Longrightarrow> armedOk (killProcess r)"
  by (simp add: armedOk_def inFlight_def)
lemma armed_fullText: "armedOk r \<Longrightarrow> armedOk (r\<lparr>fullText := t\<rparr>)"
  by (simp add: armedOk_def inFlight_def)
lemma armed_rejectQueued: "armedOk r \<Longrightarrow> armedOk (rejectQueued e r)"
  by (simp add: armedOk_def inFlight_def rejectQueued_def)

lemma handleJsonMessage_armed: "armedOk r \<Longrightarrow> armedOk (snd (handleJsonMessage now m r))"
  unfolding handleJsonMessage_def Let_def
  by (auto split: option.splits
      intro!: processNext_armed armed_fullText finish_armed armed_callCurrent
        armed_setSessionFrom armed_fold_appendBlock)

lemma onClose_armed: "armedOk r \<Longrightarrow> armedOk (snd (onClose now code r))"
proof -
  assume a: "armedOk r"
  have f: "armedOk (x\<lparr>process := None, processAlive := False\<rparr>)" if "armedOk x" for x
    using that by (simp add: armedOk_def inFlight_def)
  have g: "armedOk (x\<lparr>cancelling := False\<rparr>)" if "armedOk x" for x
    using that by (simp add: armedOk_def inFlight_def)
  have h: "armedOk (x\<lparr>crashCount := c, lastCrashTime := t\<rparr>)" if "armedOk x" for x c t
    using that by (simp add: armedOk_def inFlight_def)
  show ?thesis
    unfolding onClose_def Let_def
    using a
    by (auto intro!: processNext_armed armed_rejectQueued finish_armed f g h)
qed

lemma onError_armed: "armedOk r \<Longrightarrow> armedOk (onError err r)"
proof -
  assume a: "armedOk r"
  have f: "armedOk (r\<lparr>process := None, processAlive := False\<rparr>)"
    using a by (simp add: armedOk_def inFlight_def)
  show ?thesis
    unfolding onError_def Let_def using f by (auto intro!: finish_armed)
qed

lemma onTimeout_armed: "armedOk r \<Longrightarrow> armedOk (snd (onTimeout now r))"
  unfolding onTimeout_def Let_def
  by (auto intro!: processNext_armed armed_killProcess finish_armed armed_callCurrent)

lemma timerFires_armed: "armedOk r \<Longrightarrow> armedOk (snd (timerFires now i r))"
proof -
  assume a: "armedOk r"
  have "armedOk (r\<lparr>timers := removeAll i (timers r)\<rparr>)"
    using a by (auto simp: armedOk_def inFlight_def)
  then show ?thesis
    unfolding timerFires_def using a by (auto intro!: onTimeout_armed)
qed

lemma cancel_armed: "armedOk r \<Longrightarrow> armedOk (snd (cancel now r))"
proof -
  assume a: "armedOk r"
  let ?r1 = "(settleCurrent (Rejected CancelledByUser)
                (callCurrent (\<lambda>i. OnError i CancelledByUser) r))\<lparr>currentItem := None, fullText := []\<rparr>"
  have 1: "armedOk ?r1"
    using a by (auto intro!: armed_fullText finish_armed armed_callCurrent)
  have 2: "armedOk (killProcess (?r1\<lparr>cancelling := True\<rparr>))"
    using 1 by (simp add: armedOk_def inFlight_def)
  have 3: "armedOk (snd (processNext now ?r1))"
    using 1 by (rule processNext_armed)
  show ?thesis
    using a 2 3 unfolding cancel_def Let_def
    by (auto split: option.splits prod.splits)
qed

lemma shutdown_armed: "armedOk r \<Longrightarrow> armedOk (shutdown r)"
proof -
  assume a: "armedOk r"
  have f: "armedOk (x\<lparr>shuttingDown := True, effects := es\<rparr>)" if "armedOk x" for x es
    using that by (simp add: armedOk_def inFlight_def)
  show ?thesis
    unfolding shutdown_def Let_def using a
    by (auto split: option.splits intro!: finish_armed armed_rejectQueued armed_killProcess f)
qed

lemma step_armed: "armedOk r \<Longrightarrow> armedOk (snd (step now e r))"
proof (cases e)
  case Cancel
  assume "armedOk r"
  then show ?thesis
    using Cancel cancel_armed [of r now] by (cases "cancel now r") (auto split: sum.splits)
qed (simp_all add: run_def runStream_def enqueue_armed handleJsonMessage_armed onClose_armed
      onError_armed timerFires_armed shutdown_armed, simp add: armedOk_def inFlight_def resetCircuitBreaker_def)

lemma exec_armed: "armedOk r \<Longrightarrow> armedOk (finalState r evs)"
proof (induction evs arbitrary: r)
  case Nil
  then show ?case by (simp add: finalState_def)
next
  case (Cons a evs)
  obtain now e where a: "a = (now, e)" by (cases a)
  obtain x r' where s: "step now e r = (x, r')" by (cases "step now e r")
  have r': "armedOk r'" using step_armed [OF Cons.prems, of now e] s by simp
  show ?case
  proof (cases x)
    case None
    then show ?thesis using Cons.IH [OF r'] s a by (simp add: finalState_def)
  next
    case (Some err)
    then show ?thesis using r' s a by (simp add: finalState_def)
  qed
qed

lemma armedOk_length: "armedOk r \<Longrightarrow> card (set (timers r)) \<le> 1"
  by (cases "currentItem r") (auto simp: armedOk_def inFlight_def subset_singleton_iff)


lemma inOrder_newRunner: "inOrder (newRunner tmo)"
  by (simp add: inOrder_def pending_def inFlight_def newRunner_def)

lemma armedOk_newRunner: "armedOk (newRunner tmo)"
  by (simp add: armedOk_def newRunner_def)

lemma inOrder_sorted: "inOrder r \<Longrightarrow> sorted_wrt (<) (map fst (settled r))"
proof -
  assume "inOrder r"
  then have "sorted_wrt (<) (map fst (settled r) @ map ident (pending r))"
    by (simp add: inOrder_def)
  then show ?thesis
    by (simp add: sorted_wrt_append)
qed

section \<open>Order of settlement\<close>

text \<open>
  Claim C7, amended. In every state a session can reach there is at most one request in
  flight, and only that request has an armed timeout. As long as the breaker is closed
  at the time of every event and the session is not shut down, no exception escapes and
  the promises settled so far, followed by the request in flight and the queue, are the
  requests in the order they were enqueued: promises settle strictly in enqueue order,
  each at most once, across crashes, timeouts and cancellations.
\<close>

theorem one_in_flight_and_settle_order:
  "length (inFlight (finalState (newRunner tmo) evs)) \<le> 1
   \<and> set (timers (finalState (newRunner tmo) evs))
        \<subseteq> ident ` set (inFlight (finalState (newRunner tmo) evs))
   \<and> (breakerStaysClosed (newRunner tmo) evs \<and> Shutdown \<notin> snd ` set evs \<longrightarrow>
        escaped (newRunner tmo) evs = None
        \<and> map fst (settled (finalState (newRunner tmo) evs))
            @ map ident (pending (finalState (newRunner tmo) evs))
          = [0..<nextId (finalState (newRunner tmo) evs)]
        \<and> sorted_wrt (<) (map fst (settled (finalState (newRunner tmo) evs))))"
proof (intro conjI impI)
  show "length (inFlight (finalState (newRunner tmo) evs)) \<le> 1"
    by (simp add: inFlight_def split: option.splits)
  show "set (timers (finalState (newRunner tmo) evs))
        \<subseteq> ident ` set (inFlight (finalState (newRunner tmo) evs))"
    using exec_armed [OF armedOk_newRunner, of tmo evs] by (simp add: armedOk_def)
next
  assume h: "breakerStaysClosed (newRunner tmo) evs \<and> Shutdown \<notin> snd ` set evs"
  then have e: "escaped (newRunner tmo) evs = None \<and> inOrder (finalState (newRunner tmo) evs)"
    using exec_inOrder [OF inOrder_newRunner, of tmo evs] by simp
  show "escaped (newRunner tmo) evs = None" using e by simp
  show "map fst (settled (finalState (newRunner tmo) evs))
            @ map ident (pending (finalState (newRunner tmo) evs))
          = [0..<nextId (finalState (newRunner tmo) evs)]"
    using e by (simp add: inOrder_def)
  show "sorted_wrt (<) (map fst (settled (finalState (newRunner tmo) evs)))"
    using e inOrder_sorted by blast
qed

theorem one_in_flight_and_settle_order_witness:
  "breakerStaysClosed (newRunner 1000)
     [(0, Run ''a''), (1, Run ''b''), (2, RunStream ''c''), (3, Close 1), (4, TimerFires 1),
      (5, Close 0), (6, Run ''d''),
      (7, Message \<lparr>msg_type = ''result'', session_id = Some ''s1'', content = None,
                    msg_result = Some ''done'', is_error = False\<rparr>)]
   \<and> map fst (settled (finalState (newRunner 1000)
     [(0, Run ''a''), (1, Run ''b''), (2, RunStream ''c''), (3, Close 1), (4, TimerFires 1),
      (5, Close 0), (6, Run ''d''),
      (7, Message \<lparr>msg_type = ''result'', session_id = Some ''s1'', content = None,
                    msg_result = Some ''done'', is_error = False\<rparr>)])) = [0, 1, 2, 3]
   \<and> sorted_wrt (<) (map fst (settled (finalState (newRunner 1000)
     [(0, Run ''a''), (1, Run ''b''), (2, RunStream ''c''), (3, Close 1), (4, TimerFires 1),
      (5, Close 0), (6, Run ''d''),
      (7, Message \<lparr>msg_type = ''result'', session_id = Some ''s1'', content = None,
                    msg_result = Some ''done'', is_error = False\<rparr>)])))"
proof -
  let ?h = "[(0, Run ''a''), (1, Run ''b''), (2, RunStream ''c''), (3, Close 1), (4, TimerFires 1),
      (5, Close 0), (6, Run ''d''),
      (7, Message \<lparr>msg_type = ''result'', session_id = Some ''s1'', content = None,
                    msg_result = Some ''done'', is_error = False\<rparr>)]"
  have h1: "breakerStaysClosed (newRunner 1000) ?h"
    by code_simp
  have h2: "Shutdown \<notin> snd ` set ?h"
    by simp
  have h3: "map fst (settled (finalState (newRunner 1000) ?h)) = [0, 1, 2, 3]"
    by code_simp
  show ?thesis
    using one_in_flight_and_settle_order [of 1000 ?h] h1 h2 h3 by blast
qed

text \<open>
  Claim C7 as stated fails when \<^verbatim>\<open>shutdown()\<close> is called while one request is in
  flight and another is queued: the queued request (number 1) is rejected before the
  request in flight (number 0), with the breaker closed throughout.
\<close>

theorem settle_order_counterexample:
  "breakerStaysClosed (newRunner 1000) [(0, Run ''a''), (1, Run ''b''), (2, Shutdown)]
   \<and> escaped (newRunner 1000) [(0, Run ''a''), (1, Run ''b''), (2, Shutdown)] = None
   \<and> map fst (settled (finalState (newRunner 1000) [(0, Run ''a''), (1, Run ''b''), (2, Shutdown)]))
       = [1, 0]"
  by code_simp


section \<open>Crashes, timeouts and the circuit breaker\<close>

lemma processNext_open:
  assumes "currentItem r = None" "queue r = item # rest" "\<not> (process r \<noteq> None \<and> processAlive r)"
    "MAX_CRASHES \<le> crashCount r" "now - lastCrashTime r < CRASH_WINDOW_MS"
  shows "processNext now r =
           (Some (CircuitOpen (crashCount r) (now - lastCrashTime r)),
            r\<lparr>currentItem := Some item, queue := rest, fullText := []\<rparr>)"
  using assms by (auto simp: processNext_def ensureProcess_def)

lemma onClose_crash:
  assumes "\<not> shuttingDown r" "\<not> cancelling r"
  shows "crashCount (snd (onClose t code r)) = Suc (crashCount r)"
    and "lastCrashTime (snd (onClose t code r)) = t"
    and "process (snd (onClose t code r)) = None \<or> queue r \<noteq> []"
proof -
  let ?r2 = "r\<lparr>process := None, processAlive := False,
               crashCount := Suc (crashCount r), lastCrashTime := t\<rparr>"
  let ?r3 = "if currentItem ?r2 \<noteq> None
             then (settleCurrent (Rejected (ProcessExited code)) ?r2)\<lparr>currentItem := None\<rparr>
             else ?r2"
  have c3: "crashCount ?r3 = Suc (crashCount r)" "lastCrashTime ?r3 = t" "process ?r3 = None"
    "queue ?r3 = queue r"
    by simp_all
  have pn: "crashCount (snd (processNext t x)) = crashCount x
            \<and> lastCrashTime (snd (processNext t x)) = lastCrashTime x"
    if "crashCount x < MAX_CRASHES" for x
    using that
    by (auto simp: processNext_def ensureProcess_def spawnProcess_def Let_def split: list.splits)
  have e: "snd (onClose t code r) =
        (if queue ?r3 \<noteq> [] \<and> crashCount ?r3 < MAX_CRASHES then snd (processNext t ?r3)
         else if MAX_CRASHES \<le> crashCount ?r3 then rejectQueued CircuitOpenQueued ?r3
         else ?r3)"
    using assms by (simp add: onClose_def Let_def)
  show "crashCount (snd (onClose t code r)) = Suc (crashCount r)"
    unfolding e using c3 pn [of ?r3] by (auto simp: rejectQueued_def)
  show "lastCrashTime (snd (onClose t code r)) = t"
    unfolding e using c3 pn [of ?r3] by (auto simp: rejectQueued_def)
  show "process (snd (onClose t code r)) = None \<or> queue r \<noteq> []"
    unfolding e using c3 by (auto simp: rejectQueued_def)
qed

lemma onClose_opens:
  assumes "\<not> shuttingDown r" "\<not> cancelling r" "MAX_CRASHES \<le> Suc (crashCount r)"
  shows "fst (onClose t code r) = None"
    and "currentItem (snd (onClose t code r)) = None"
    and "queue (snd (onClose t code r)) = []"
    and "process (snd (onClose t code r)) = None"
  using assms
  by (auto simp: onClose_def Let_def rejectQueued_def settleCurrent_def split: option.splits)

lemma enqueue_open:
  assumes "currentItem r = None" "queue r = []" "\<not> (process r \<noteq> None \<and> processAlive r)"
    "MAX_CRASHES \<le> crashCount r" "now - lastCrashTime r < CRASH_WINDOW_MS"
  shows "settled (enqueue cb now p r)
           = settled r @ [(nextId r, Rejected (CircuitOpen (crashCount r) (now - lastCrashTime r)))]"
    and "spawned (enqueue cb now p r) = spawned r"
    and "effects (enqueue cb now p r) = effects r"
    and "process (enqueue cb now p r) = process r"
proof -
  let ?item = "\<lparr>ident = nextId r, prompt = p, callbacks = cb\<rparr>"
  let ?r1 = "r\<lparr>queue := queue r @ [?item], nextId := Suc (nextId r)\<rparr>"
  have "processNext now ?r1 =
           (Some (CircuitOpen (crashCount ?r1) (now - lastCrashTime ?r1)),
            ?r1\<lparr>currentItem := Some ?item, queue := [], fullText := []\<rparr>)"
    using assms by (intro processNext_open) simp_all
  then have e: "enqueue cb now p r =
      (?r1\<lparr>currentItem := Some ?item, queue := [], fullText := []\<rparr>)
        \<lparr>settled := settled r @ [(nextId r, Rejected (CircuitOpen (crashCount r) (now - lastCrashTime r)))]\<rparr>"
    by (simp add: enqueue_def Let_def)
  show "settled (enqueue cb now p r)
           = settled r @ [(nextId r, Rejected (CircuitOpen (crashCount r) (now - lastCrashTime r)))]"
    "spawned (enqueue cb now p r) = spawned r"
    "effects (enqueue cb now p r) = effects r"
    "process (enqueue cb now p r) = process r"
    unfolding e by simp_all
qed

lemma ensureProcess_cooled:
  assumes "\<not> (process r \<noteq> None \<and> processAlive r)" "MAX_CRASHES \<le> crashCount r"
    "CRASH_WINDOW_MS \<le> now - lastCrashTime r"
  shows "ensureProcess now r =
           Inr (spawned r,
                r\<lparr>process := Some (spawned r), processAlive := True, crashCount := 0,
                  spawned := Suc (spawned r), effects := effects r @ [Spawn (spawned r)]\<rparr>)"
  using assms by (auto simp: ensureProcess_def spawnProcess_def)

text \<open>
  Claim C4. With no live process, a crash count of at least 3 and the last crash less
  than 60000 ms ago, the dispatch of the next request throws the circuit-open error
  and spawns nothing. In particular, after the crash that brings the counter to 3, a
  request made (by \<^verbatim>\<open>run\<close>, \<open>enqueue False\<close>, or \<^verbatim>\<open>runStream\<close>, \<open>enqueue True\<close>) less than
  60000 ms after that crash has its promise rejected with the circuit-open error, and
  no process is spawned. A spawn attempt made once at least 60000 ms have passed since
  the last crash resets the counter to zero and spawns.
\<close>

theorem circuit_breaker:
  "(currentItem r = None \<and> queue r = item # rest \<and> \<not> (process r \<noteq> None \<and> processAlive r)
      \<and> MAX_CRASHES \<le> crashCount r \<and> now - lastCrashTime r < CRASH_WINDOW_MS \<longrightarrow>
      processNext now r =
        (Some (CircuitOpen (crashCount r) (now - lastCrashTime r)),
         r\<lparr>currentItem := Some item, queue := rest, fullText := []\<rparr>))
   \<and> (\<not> shuttingDown r \<and> \<not> cancelling r \<and> MAX_CRASHES \<le> Suc (crashCount r)
        \<and> now - t < CRASH_WINDOW_MS \<longrightarrow>
        crashCount (snd (onClose t code r)) = Suc (crashCount r)
        \<and> lastCrashTime (snd (onClose t code r)) = t
        \<and> fst (getCircuitBreakerStatus now (snd (onClose t code r)))
        \<and> settled (enqueue cb now p (snd (onClose t code r)))
            = settled (snd (onClose t code r))
              @ [(nextId (snd (onClose t code r)),
                  Rejected (CircuitOpen (Suc (crashCount r)) (now - t)))]
        \<and> spawned (enqueue cb now p (snd (onClose t code r))) = spawned (snd (onClose t code r))
        \<and> effects (enqueue cb now p (snd (onClose t code r))) = effects (snd (onClose t code r))
        \<and> process (enqueue cb now p (snd (onClose t code r))) = None)
   \<and> (\<not> (process r \<noteq> None \<and> processAlive r) \<and> MAX_CRASHES \<le> crashCount r
        \<and> CRASH_WINDOW_MS \<le> now - lastCrashTime r \<longrightarrow>
        ensureProcess now r =
           Inr (spawned r,
                r\<lparr>process := Some (spawned r), processAlive := True, crashCount := 0,
                  spawned := Suc (spawned r), effects := effects r @ [Spawn (spawned r)]\<rparr>))"
proof (intro conjI impI)
  assume "currentItem r = None \<and> queue r = item # rest \<and> \<not> (process r \<noteq> None \<and> processAlive r)
      \<and> MAX_CRASHES \<le> crashCount r \<and> now - lastCrashTime r < CRASH_WINDOW_MS"
  then show "processNext now r =
        (Some (CircuitOpen (crashCount r) (now - lastCrashTime r)),
         r\<lparr>currentItem := Some item, queue := rest, fullText := []\<rparr>)"
    by (intro processNext_open) simp_all
next
  assume "\<not> (process r \<noteq> None \<and> processAlive r) \<and> MAX_CRASHES \<le> crashCount r
        \<and> CRASH_WINDOW_MS \<le> now - lastCrashTime r"
  then show "ensureProcess now r =
           Inr (spawned r,
                r\<lparr>process := Some (spawned r), processAlive := True, crashCount := 0,
                  spawned := Suc (spawned r), effects := effects r @ [Spawn (spawned r)]\<rparr>)"
    by (intro ensureProcess_cooled) simp_all
next
  assume h: "\<not> shuttingDown r \<and> \<not> cancelling r \<and> MAX_CRASHES \<le> Suc (crashCount r)
        \<and> now - t < CRASH_WINDOW_MS"
  let ?r1 = "snd (onClose t code r)"
  have c: "crashCount ?r1 = Suc (crashCount r)" "lastCrashTime ?r1 = t"
    using h onClose_crash [of r t code] by simp_all
  have o: "currentItem ?r1 = None" "queue ?r1 = []" "process ?r1 = None"
    using h onClose_opens [of r t code] by simp_all
  show "crashCount ?r1 = Suc (crashCount r)" "lastCrashTime ?r1 = t"
    using c by simp_all
  show "fst (getCircuitBreakerStatus now ?r1)"
    using c h by (simp add: getCircuitBreakerStatus_def)
  have pre: "\<not> (process ?r1 \<noteq> None \<and> processAlive ?r1)" "MAX_CRASHES \<le> crashCount ?r1"
    "now - lastCrashTime ?r1 < CRASH_WINDOW_MS"
    using c o h by simp_all
  show "settled (enqueue cb now p ?r1)
            = settled ?r1 @ [(nextId ?r1, Rejected (CircuitOpen (Suc (crashCount r)) (now - t)))]"
    using enqueue_open(1) [OF o(1) o(2) pre, of cb p] c by simp
  show "spawned (enqueue cb now p ?r1) = spawned ?r1"
    using enqueue_open(2) [OF o(1) o(2) pre, of cb p] by simp
  show "effects (enqueue cb now p ?r1) = effects ?r1"
    using enqueue_open(3) [OF o(1) o(2) pre, of cb p] by simp
  show "process (enqueue cb now p ?r1) = None"
    using enqueue_open(4) [OF o(1) o(2) pre, of cb p] o by simp
qed

theorem circuit_breaker_witness:
  "processNext 6000
     ((newRunner 300000)\<lparr>queue := [\<lparr>ident = 0, prompt = ''hi'', callbacks = False\<rparr>],
        crashCount := 3, lastCrashTime := 5000, nextId := 1\<rparr>)
     = (Some (CircuitOpen 3 1000),
        (newRunner 300000)\<lparr>queue := [], currentItem := Some \<lparr>ident = 0, prompt = ''hi'', callbacks = False\<rparr>,
          crashCount := 3, lastCrashTime := 5000, nextId := 1\<rparr>)
   \<and> settled (enqueue False 6000 ''hi'' (snd (onClose 5000 1 ((newRunner 300000)\<lparr>crashCount := 2\<rparr>))))
       = [(0, Rejected (CircuitOpen 3 1000))]
   \<and> spawned (enqueue False 6000 ''hi'' (snd (onClose 5000 1 ((newRunner 300000)\<lparr>crashCount := 2\<rparr>)))) = 0
   \<and> ensureProcess 65000 ((newRunner 300000)\<lparr>crashCount := 3, lastCrashTime := 5000\<rparr>)
       = Inr (0, (newRunner 300000)\<lparr>process := Some 0, processAlive := True, crashCount := 0,
                   lastCrashTime := 5000, spawned := 1, effects := [Spawn 0]\<rparr>)"
proof -
  let ?a = "(newRunner 300000)\<lparr>queue := [\<lparr>ident = 0, prompt = ''hi'', callbacks = False\<rparr>],
        crashCount := 3, lastCrashTime := 5000, nextId := 1\<rparr>"
  let ?b = "(newRunner 300000)\<lparr>crashCount := 2\<rparr>"
  let ?c = "(newRunner 300000)\<lparr>crashCount := 3, lastCrashTime := 5000\<rparr>"
  have ha: "currentItem ?a = None \<and> queue ?a = \<lparr>ident = 0, prompt = ''hi'', callbacks = False\<rparr> # []
      \<and> \<not> (process ?a \<noteq> None \<and> processAlive ?a)
      \<and> MAX_CRASHES \<le> crashCount ?a \<and> 6000 - lastCrashTime ?a < CRASH_WINDOW_MS"
    by (simp add: newRunner_def MAX_CRASHES_def CRASH_WINDOW_MS_def)
  have hb: "\<not> shuttingDown ?b \<and> \<not> cancelling ?b \<and> MAX_CRASHES \<le> Suc (crashCount ?b)
        \<and> 6000 - 5000 < CRASH_WINDOW_MS"
    by (simp add: newRunner_def MAX_CRASHES_def CRASH_WINDOW_MS_def)
  have hc: "\<not> (process ?c \<noteq> None \<and> processAlive ?c) \<and> MAX_CRASHES \<le> crashCount ?c
        \<and> CRASH_WINDOW_MS \<le> 65000 - lastCrashTime ?c"
    by (simp add: newRunner_def MAX_CRASHES_def CRASH_WINDOW_MS_def)
  have sb: "settled (snd (onClose 5000 1 ?b)) = [] \<and> nextId (snd (onClose 5000 1 ?b)) = 0
     \<and> spawned (snd (onClose 5000 1 ?b)) = 0"
    by (simp add: onClose_def Let_def newRunner_def MAX_CRASHES_def rejectQueued_def)
  show ?thesis
    using circuit_breaker [of ?a "\<lparr>ident = 0, prompt = ''hi'', callbacks = False\<rparr>" "[]" 6000 5000 1 False "''hi''"]
      circuit_breaker [of ?b "\<lparr>ident = 0, prompt = ''hi'', callbacks = False\<rparr>" "[]" 6000 5000 1 False "''hi''"]
      circuit_breaker [of ?c "\<lparr>ident = 0, prompt = ''hi'', callbacks = False\<rparr>" "[]" 65000 5000 1 False "''hi''"]
      ha hb hc sb
    by (simp add: newRunner_def)
qed

lemma onTimeout_kills:
  assumes "currentItem r = Some it" "process r = Some p"
  shows "Kill p \<in> set (effects (snd (onTimeout now r)))"
    and "shuttingDown (snd (onTimeout now r)) = shuttingDown r"
    and "cancelling (snd (onTimeout now r)) = cancelling r"
    and "(ident it, Rejected (TimedOut (timeoutMs r))) \<in> set (settled (snd (onTimeout now r)))"
proof -
  let ?e = "TimedOut (timeoutMs r)"
  let ?r1 = "(settleCurrent (Rejected ?e) (callCurrent (\<lambda>i. OnError i ?e) r))\<lparr>currentItem := None\<rparr>"
  have e: "snd (onTimeout now r) = snd (processNext now (killProcess ?r1))"
    using assms by (simp add: onTimeout_def Let_def)
  have k: "Kill p \<in> set (effects (killProcess ?r1))" "shuttingDown (killProcess ?r1) = shuttingDown r"
    "cancelling (killProcess ?r1) = cancelling r"
    "(ident it, Rejected ?e) \<in> set (settled (killProcess ?r1))"
    using assms by (auto simp: killProcess_def settleCurrent_def callCurrent_def)
  have pn: "set (effects x) \<subseteq> set (effects (snd (processNext now x)))
      \<and> shuttingDown (snd (processNext now x)) = shuttingDown x
      \<and> cancelling (snd (processNext now x)) = cancelling x
      \<and> settled (snd (processNext now x)) = settled x" for x
    by (auto simp: processNext_def ensureProcess_def spawnProcess_def Let_def split: list.splits)
  show "Kill p \<in> set (effects (snd (onTimeout now r)))"
    unfolding e using k pn [of "killProcess ?r1"] by blast
  show "shuttingDown (snd (onTimeout now r)) = shuttingDown r"
    unfolding e using k pn [of "killProcess ?r1"] by simp
  show "cancelling (snd (onTimeout now r)) = cancelling r"
    unfolding e using k pn [of "killProcess ?r1"] by simp
  show "(ident it, Rejected (TimedOut (timeoutMs r))) \<in> set (settled (snd (onTimeout now r)))"
    unfolding e using k pn [of "killProcess ?r1"] by simp
qed

lemma three_timeouts:
  "escaped (newRunner tmo)
      [(t1, Run p1), (t2, TimerFires 0), (t3, Close c1),
       (t4, Run p2), (t5, TimerFires 1), (t6, Close c2),
       (t7, Run p3), (t8, TimerFires 2), (t9, Close c3)] = None
   \<and> finalState (newRunner tmo)
      [(t1, Run p1), (t2, TimerFires 0), (t3, Close c1),
       (t4, Run p2), (t5, TimerFires 1), (t6, Close c2),
       (t7, Run p3), (t8, TimerFires 2), (t9, Close c3)]
     = (newRunner tmo)\<lparr>crashCount := 3, lastCrashTime := t9, nextId := 3, spawned := 3,
          settled := [(0, Rejected (TimedOut tmo)), (1, Rejected (TimedOut tmo)),
                      (2, Rejected (TimedOut tmo))],
          effects := [Spawn 0, StdinWrite 0 p1, Kill 0, Spawn 1, StdinWrite 1 p2, Kill 1,
                      Spawn 2, StdinWrite 2 p3, Kill 2]\<rparr>"
  by (simp add: escaped_def finalState_def run_def enqueue_def processNext_def ensureProcess_def
      spawnProcess_def timerFires_def onTimeout_def settleCurrent_def callCurrent_def
      killProcess_def onClose_def rejectQueued_def newRunner_def MAX_CRASHES_def Let_def)

text \<open>
  Claim C10. The timeout callback rejects the request in flight and kills the process,
  and leaves \<open>shuttingDown\<close> and \<open>cancelling\<close> as they were. With both flags clear the
  close event that follows takes the crash branch, as any close event does in such a
  state: it adds one to the crash counter and sets the time of the last crash. Three
  requests that time out one after the other therefore leave the counter at 3, and the
  breaker is open for 60000 ms after the third close event, although every process
  ended because the session killed it.
\<close>

theorem timeout_counts_as_crash:
  "(currentItem r = Some it \<and> process r = Some p \<and> \<not> shuttingDown r \<and> \<not> cancelling r \<longrightarrow>
      Kill p \<in> set (effects (snd (onTimeout now r)))
      \<and> (ident it, Rejected (TimedOut (timeoutMs r))) \<in> set (settled (snd (onTimeout now r)))
      \<and> \<not> shuttingDown (snd (onTimeout now r)) \<and> \<not> cancelling (snd (onTimeout now r))
      \<and> crashCount (snd (onClose now' code (snd (onTimeout now r))))
          = Suc (crashCount (snd (onTimeout now r)))
      \<and> lastCrashTime (snd (onClose now' code (snd (onTimeout now r)))) = now')
   \<and> (\<not> shuttingDown x \<and> \<not> cancelling x \<longrightarrow>
        crashCount (snd (onClose now' code x)) = Suc (crashCount x)
        \<and> lastCrashTime (snd (onClose now' code x)) = now')
   \<and> (t - t9 < CRASH_WINDOW_MS \<longrightarrow>
        escaped (newRunner tmo)
          [(t1, Run p1), (t2, TimerFires 0), (t3, Close c1),
           (t4, Run p2), (t5, TimerFires 1), (t6, Close c2),
           (t7, Run p3), (t8, TimerFires 2), (t9, Close c3)] = None
        \<and> getCircuitBreakerStatus t
            (finalState (newRunner tmo)
              [(t1, Run p1), (t2, TimerFires 0), (t3, Close c1),
               (t4, Run p2), (t5, TimerFires 1), (t6, Close c2),
               (t7, Run p3), (t8, TimerFires 2), (t9, Close c3)]) = (True, 3, t9)
        \<and> settled
            (finalState (newRunner tmo)
              [(t1, Run p1), (t2, TimerFires 0), (t3, Close c1),
               (t4, Run p2), (t5, TimerFires 1), (t6, Close c2),
               (t7, Run p3), (t8, TimerFires 2), (t9, Close c3)])
           = [(0, Rejected (TimedOut tmo)), (1, Rejected (TimedOut tmo)),
              (2, Rejected (TimedOut tmo))])"
proof (intro conjI impI)
  assume h: "currentItem r = Some it \<and> process r = Some p \<and> \<not> shuttingDown r \<and> \<not> cancelling r"
  then have c: "currentItem r = Some it" and p: "process r = Some p" by simp_all
  show "Kill p \<in> set (effects (snd (onTimeout now r)))"
    using onTimeout_kills(1) [OF c p] .
  show "(ident it, Rejected (TimedOut (timeoutMs r))) \<in> set (settled (snd (onTimeout now r)))"
    using onTimeout_kills(4) [OF c p] .
  show f1: "\<not> shuttingDown (snd (onTimeout now r))"
    using onTimeout_kills(2) [OF c p] h by simp
  show f2: "\<not> cancelling (snd (onTimeout now r))"
    using onTimeout_kills(3) [OF c p] h by simp
  show "crashCount (snd (onClose now' code (snd (onTimeout now r))))
          = Suc (crashCount (snd (onTimeout now r)))"
    using onClose_crash(1) [OF f1 f2] .
  show "lastCrashTime (snd (onClose now' code (snd (onTimeout now r)))) = now'"
    using onClose_crash(2) [OF f1 f2] .
next
  assume h: "\<not> shuttingDown x \<and> \<not> cancelling x"
  show "crashCount (snd (onClose now' code x)) = Suc (crashCount x)"
    using h onClose_crash(1) [of x] by simp
  show "lastCrashTime (snd (onClose now' code x)) = now'"
    using h onClose_crash(2) [of x] by simp
next
  let ?h = "[(t1, Run p1), (t2, TimerFires 0), (t3, Close c1),
           (t4, Run p2), (t5, TimerFires 1), (t6, Close c2),
           (t7, Run p3), (t8, TimerFires 2), (t9, Close c3)]"
  assume w: "t - t9 < CRASH_WINDOW_MS"
  show "escaped (newRunner tmo) ?h = None"
    using three_timeouts by blast
  show "getCircuitBreakerStatus t (finalState (newRunner tmo) ?h) = (True, 3, t9)"
    using w three_timeouts [of tmo t1 p1 t2 t3 c1 t4 p2 t5 t6 c2 t7 p3 t8 t9 c3]
    by (simp add: getCircuitBreakerStatus_def MAX_CRASHES_def)
  show "settled (finalState (newRunner tmo) ?h)
           = [(0, Rejected (TimedOut tmo)), (1, Rejected (TimedOut tmo)),
              (2, Rejected (TimedOut tmo))]"
    using three_timeouts [of tmo t1 p1 t2 t3 c1 t4 p2 t5 t6 c2 t7 p3 t8 t9 c3] by simp
qed

theorem timeout_counts_as_crash_witness:
  "crashCount (snd (onClose 2100 0 (snd (onTimeout 2000 (run 1000 ''hi'' (newRunner 1000)))))) = 1
   \<and> lastCrashTime (snd (onClose 2100 0 (snd (onTimeout 2000 (run 1000 ''hi'' (newRunner 1000)))))) = 2100
   \<and> Kill 0 \<in> set (effects (snd (onTimeout 2000 (run 1000 ''hi'' (newRunner 1000)))))
   \<and> getCircuitBreakerStatus 10000
        (finalState (newRunner 1000)
           [(1000, Run ''a''), (2000, TimerFires 0), (2100, Close 0),
            (3000, Run ''b''), (4000, TimerFires 1), (4100, Close 0),
            (5000, Run ''c''), (6000, TimerFires 2), (6100, Close 0)]) = (True, 3, 6100)"
proof -
  let ?r = "run 1000 ''hi'' (newRunner 1000)"
  have r: "?r = (newRunner 1000)\<lparr>process := Some 0, processAlive := True,
      currentItem := Some \<lparr>ident = 0, prompt = ''hi'', callbacks = False\<rparr>, nextId := 1,
      spawned := 1, timers := [0], effects := [Spawn 0, StdinWrite 0 ''hi'']\<rparr>"
    by (simp add: run_def enqueue_def processNext_def ensureProcess_def spawnProcess_def
        newRunner_def MAX_CRASHES_def Let_def)
  have h1: "currentItem ?r = Some \<lparr>ident = 0, prompt = ''hi'', callbacks = False\<rparr>
      \<and> process ?r = Some 0 \<and> \<not> shuttingDown ?r \<and> \<not> cancelling ?r"
    unfolding r by (simp add: newRunner_def)
  have z: "crashCount (snd (onTimeout 2000 ?r)) = 0"
    unfolding r
    by (simp add: onTimeout_def settleCurrent_def callCurrent_def killProcess_def
        processNext_def newRunner_def Let_def)
  have h3: "(10000::int) - 6100 < CRASH_WINDOW_MS"
    by (simp add: CRASH_WINDOW_MS_def)
  show ?thesis
    using timeout_counts_as_crash [of ?r "\<lparr>ident = 0, prompt = ''hi'', callbacks = False\<rparr>" 0
        2000 2100 0 ?r 10000 6100 1000 1000 "''a''" 2000 2100 0 3000 "''b''" 4000 4100 0 5000 "''c''" 6000 0]
      h1 h3 z
    by simp
qed

section \<open>Cancellation\<close>



lemma processNext_pending:
  "pending (snd (processNext now r)) = pending r"
  "settled (snd (processNext now r)) = settled r"
  by (auto simp: processNext_def pending_def inFlight_def ensureProcess_def spawnProcess_def Let_def
      split: list.splits)

lemma cancel_without_process:
  assumes "currentItem r = Some it" "process r = None" "\<not> fst (getCircuitBreakerStatus now r)"
  shows "fst (cancel now r) = Inr True"
    and "settled (snd (cancel now r)) = settled r @ [(ident it, Rejected CancelledByUser)]"
    and "pending (snd (cancel now r)) = queue r"
proof -
  let ?r1 = "(settleCurrent (Rejected CancelledByUser)
                (callCurrent (\<lambda>i. OnError i CancelledByUser) r))\<lparr>currentItem := None, fullText := []\<rparr>"
  have "\<not> fst (getCircuitBreakerStatus now ?r1)"
    using assms(3) by (simp add: getCircuitBreakerStatus_def)
  then have n: "fst (processNext now ?r1) = None" by (rule processNext_closed)
  have p1: "process ?r1 = None" using assms by simp
  have e: "cancel now r = (Inr True, snd (processNext now ?r1))"
    using assms(1) p1 n by (cases "processNext now ?r1") (simp add: cancel_def Let_def)
  have s1: "settled ?r1 = settled r @ [(ident it, Rejected CancelledByUser)]"
    using assms(1) by (simp add: settleCurrent_def)
  have q1: "pending ?r1 = queue r"
    by (simp add: pending_def inFlight_def)
  show "fst (cancel now r) = Inr True" using e by simp
  show "settled (snd (cancel now r)) = settled r @ [(ident it, Rejected CancelledByUser)]"
    using e s1 processNext_pending(2) [of now ?r1] by simp
  show "pending (snd (cancel now r)) = queue r"
    using e q1 processNext_pending(1) [of now ?r1] by simp
qed







text \<open>
  The flag \<open>cancelling\<close> is one boolean for the whole session. When two killed processes
  are still to close, the first close event clears the flag and the second one takes
  the crash branch: in this history the request that was queued at the second
  cancellation (number 2) is rejected with the process-exit error and a crash is
  counted, with the breaker closed throughout.
\<close>

lemma second_close_after_two_cancels:
  "breakerStaysClosed (newRunner 1000)
     [(0, Run ''a''), (1, Cancel), (2, Run ''b''), (3, Run ''c''), (4, Cancel), (5, Close 0),
      (6, Close 0)]
   \<and> settled (finalState (newRunner 1000)
     [(0, Run ''a''), (1, Cancel), (2, Run ''b''), (3, Run ''c''), (4, Cancel), (5, Close 0),
      (6, Close 0)])
     = [(0, Rejected CancelledByUser), (1, Rejected CancelledByUser),
        (2, Rejected (ProcessExited 0))]
   \<and> crashCount (finalState (newRunner 1000)
     [(0, Run ''a''), (1, Cancel), (2, Run ''b''), (3, Run ''c''), (4, Cancel), (5, Close 0),
      (6, Close 0)]) = 1"
  by code_simp




section \<open>The pool: keys, idle sweep, destruction\<close>

lemma removeEntry_pool: "pool (removeEntry k m) = filter (\<lambda>x. fst x \<noteq> k) (pool m)"
proof (cases "map_of (pool m) k")
  case None
  then have "k \<notin> fst ` set (pool m)" by (simp add: map_of_eq_None_iff)
  then have "filter (\<lambda>x. fst x \<noteq> k) (pool m) = pool m"
    by (auto simp: filter_id_conv)
  then show ?thesis using None by (simp add: removeEntry_def)
next
  case (Some e)
  then show ?thesis by (simp add: removeEntry_def)
qed

lemma removeEntry_released:
  "released (removeEntry k m) =
     released m @ (case map_of (pool m) k of None \<Rightarrow> [] | Some e \<Rightarrow> [(k, shutdown (runner e))])"
  by (simp add: removeEntry_def split: option.splits)

lemma removeEntry_frame [simp]:
  "maxProcesses (removeEntry k m) = maxProcesses m"
  "idleTimeoutMs (removeEntry k m) = idleTimeoutMs m"
  "agentConfig (removeEntry k m) = agentConfig m"
  "cleanupInterval (removeEntry k m) = cleanupInterval m"
  by (simp_all add: removeEntry_def split: option.splits)

lemma fold_removeEntry_pool:
  "pool (fold removeEntry ks m) = filter (\<lambda>x. fst x \<notin> set ks) (pool m)"
proof (induction ks arbitrary: m)
  case Nil
  then show ?case by simp
next
  case (Cons k ks)
  show ?case
    by (simp add: Cons.IH removeEntry_pool conj_commute)
qed

lemma fold_removeEntry_frame [simp]:
  "maxProcesses (fold removeEntry ks m) = maxProcesses m"
  "idleTimeoutMs (fold removeEntry ks m) = idleTimeoutMs m"
  "agentConfig (fold removeEntry ks m) = agentConfig m"
  "cleanupInterval (fold removeEntry ks m) = cleanupInterval m"
  by (induction ks arbitrary: m) simp_all

lemma cleanupIdle_pool:
  "pool (cleanupIdle now m)
     = filter (\<lambda>x. fst x \<notin> fst ` {y \<in> set (pool m). idleTimeoutMs m < now - lastUsed (snd y)}) (pool m)"
  by (simp add: cleanupIdle_def Let_def fold_removeEntry_pool)

lemma cleanupIdle_distinct:
  assumes "distinct (map fst (pool m))"
  shows "pool (cleanupIdle now m) = filter (\<lambda>x. \<not> idleTimeoutMs m < now - lastUsed (snd x)) (pool m)"
proof -
  have "(fst x \<notin> fst ` {y \<in> set (pool m). idleTimeoutMs m < now - lastUsed (snd y)})
        = (\<not> idleTimeoutMs m < now - lastUsed (snd x))" if "x \<in> set (pool m)" for x
  proof
    assume "fst x \<notin> fst ` {y \<in> set (pool m). idleTimeoutMs m < now - lastUsed (snd y)}"
    then show "\<not> idleTimeoutMs m < now - lastUsed (snd x)" using that by force
  next
    assume n: "\<not> idleTimeoutMs m < now - lastUsed (snd x)"
    show "fst x \<notin> fst ` {y \<in> set (pool m). idleTimeoutMs m < now - lastUsed (snd y)}"
    proof
      assume "fst x \<in> fst ` {y \<in> set (pool m). idleTimeoutMs m < now - lastUsed (snd y)}"
      then obtain y where y: "y \<in> set (pool m)" "idleTimeoutMs m < now - lastUsed (snd y)" "fst y = fst x"
        by auto
      then have "y = x"
        using assms that by (metis eq_key_imp_eq_value prod.collapse)
      then show False using n y by simp
    qed
  qed
  then show ?thesis
    unfolding cleanupIdle_pool by (intro filter_cong) auto
qed

lemma distinct_filter_keys: "distinct (map fst xs) \<Longrightarrow> distinct (map fst (filter P xs))"
  by (simp add: distinct_map_filter)

lemma removeEntry_distinct: "distinct (map fst (pool m)) \<Longrightarrow> distinct (map fst (pool (removeEntry k m)))"
  by (simp add: removeEntry_pool distinct_filter_keys)

lemma evictLRU_distinct: "distinct (map fst (pool m)) \<Longrightarrow> distinct (map fst (pool (evictLRU m)))"
  by (auto simp: evictLRU_def removeEntry_distinct split: option.splits)

lemma evictLRU_keys: "set (map fst (pool (evictLRU m))) \<subseteq> set (map fst (pool m))"
  by (auto simp: evictLRU_def removeEntry_pool split: option.splits)

lemma evictLRU_frame [simp]:
  "maxProcesses (evictLRU m) = maxProcesses m"
  "idleTimeoutMs (evictLRU m) = idleTimeoutMs m"
  "agentConfig (evictLRU m) = agentConfig m"
  "cleanupInterval (evictLRU m) = cleanupInterval m"
  by (simp_all add: evictLRU_def split: option.splits)

lemma map_fst_update:
  "map fst (map (\<lambda>x. if fst x = k then (k, f x) else x) xs) = map fst xs"
  "map (fst \<circ> (\<lambda>x. if fst x = k then (k, f x) else x)) xs = map fst xs"
  by (induction xs) auto

lemma getOrCreateRunner_distinct:
  assumes "distinct (map fst (pool m))"
  shows "distinct (map fst (pool (getOrCreateRunner now k m)))"
proof (cases "map_of (pool m) k")
  case (Some e)
  then show ?thesis using assms by (simp add: getOrCreateRunner_def map_fst_update)
next
  case None
  then have nk: "k \<notin> set (map fst (pool m))" by (simp add: map_of_eq_None_iff)
  then have "k \<notin> set (map fst (pool (evictLRU m)))" using evictLRU_keys [of m] by blast
  then show ?thesis
    using None nk assms evictLRU_distinct [OF assms]
    by (simp add: getOrCreateRunner_def Let_def)
qed

lemma onRunner_keys [simp]: "map fst (pool (onRunner k f m)) = map fst (pool m)"
  by (simp add: onRunner_def map_fst_update)

lemma dispatch_distinct:
  "distinct (map fst (pool m)) \<Longrightarrow> distinct (map fst (pool (snd (dispatch cb now p opts m))))"
  by (simp add: dispatch_def Let_def getOrCreateRunner_distinct)

lemma poolStep_distinct:
  "distinct (map fst (pool m)) \<Longrightarrow> distinct (map fst (pool (poolStep now opn m)))"
proof (cases opn)
  case (PoolDestroy k)
  assume "distinct (map fst (pool m))"
  then show ?thesis using PoolDestroy
    by (auto simp: destroy_def removeEntry_distinct split: option.splits)
next
  case PoolCleanupTick
  assume "distinct (map fst (pool m))"
  then show ?thesis using PoolCleanupTick
    by (simp add: cleanupIdle_pool distinct_filter_keys)
qed (simp_all add: run_mgr_def runStream_mgr_def dispatch_distinct shutdown_mgr_def)

lemma poolExec_distinct:
  "distinct (map fst (pool m)) \<Longrightarrow> distinct (map fst (pool (poolExec m ops)))"
  unfolding poolExec_def
  by (induction ops arbitrary: m) (auto simp: poolStep_distinct)

lemma newManager_distinct: "distinct (map fst (pool (newManager cfg maxP idle)))"
  by (simp add: newManager_def)

lemma reachable_distinct: "distinct (map fst (pool (poolExec (newManager cfg maxP idle) ops)))"
  by (simp add: poolExec_distinct newManager_distinct)

lemma map_of_update:
  "map_of (map (\<lambda>x. if fst x = k then (k, f (snd x)) else x) xs) k = map_option f (map_of xs k)"
  by (induction xs) auto

lemma getOrCreateRunner_hit:
  "map_of (pool m) k = Some e \<Longrightarrow>
     map_of (pool (getOrCreateRunner now k m)) k = Some (e\<lparr>lastUsed := now\<rparr>)"
  using map_of_update [of k "\<lambda>v. v\<lparr>lastUsed := now\<rparr>" "pool m"]
  by (simp add: getOrCreateRunner_def)

lemma dispatch_hit:
  assumes "map_of (pool m) (case channelId_opt opts of None \<Rightarrow> DEFAULT_CHANNEL | Some c \<Rightarrow> c) = Some e"
  shows "\<exists>e'. map_of (pool (snd (dispatch cb now p opts m)))
                 (case channelId_opt opts of None \<Rightarrow> DEFAULT_CHANNEL | Some c \<Rightarrow> c) = Some e'
              \<and> lastUsed e' = now"
proof -
  let ?k = "case channelId_opt opts of None \<Rightarrow> DEFAULT_CHANNEL | Some c \<Rightarrow> c"
  let ?m1 = "getOrCreateRunner now ?k m"
  have 1: "map_of (pool ?m1) ?k = Some (e\<lparr>lastUsed := now\<rparr>)"
    using assms by (rule getOrCreateRunner_hit)
  have 2: "map_of (pool (onRunner ?k f ?m1)) ?k = Some (e\<lparr>lastUsed := now, runner := f (runner e)\<rparr>)" for f
    using 1 map_of_update [of ?k "\<lambda>v. v\<lparr>runner := f (runner v)\<rparr>" "pool ?m1"]
    by (simp add: onRunner_def)
  show ?thesis
    using 1 2 by (simp add: dispatch_def Let_def)
qed

text \<open>
  Claim C9. In every state the pool can reach, the idle sweep keeps an entry whose idle
  time \<open>now - lastUsed\<close> does not exceed \<open>idleTimeoutMs\<close>, and a hit (\<^verbatim>\<open>getOrCreateRunner\<close>
  on a key in the pool, as \<^verbatim>\<open>run\<close> and \<^verbatim>\<open>runStream\<close> call it) sets \<open>lastUsed\<close> of that
  entry to the current time.
\<close>

theorem idle_sweep_and_hits:
  assumes "m = poolExec (newManager cfg maxP idle) ops"
  shows "((k, e) \<in> set (pool m) \<and> now - lastUsed e \<le> idleTimeoutMs m \<longrightarrow>
            (k, e) \<in> set (pool (cleanupIdle now m))
            \<and> (k, e) \<in> set (pool (poolStep now PoolCleanupTick m)))
         \<and> (map_of (pool m) k = Some e \<longrightarrow>
              map_of (pool (getOrCreateRunner now k m)) k = Some (e\<lparr>lastUsed := now\<rparr>))
         \<and> (map_of (pool m) (case channelId_opt opts of None \<Rightarrow> DEFAULT_CHANNEL | Some c \<Rightarrow> c)
              = Some e \<longrightarrow>
              (\<exists>e'. map_of (pool (snd (run_mgr now p opts m)))
                       (case channelId_opt opts of None \<Rightarrow> DEFAULT_CHANNEL | Some c \<Rightarrow> c) = Some e'
                    \<and> lastUsed e' = now)
              \<and> (\<exists>e'. map_of (pool (snd (runStream_mgr now p opts m)))
                       (case channelId_opt opts of None \<Rightarrow> DEFAULT_CHANNEL | Some c \<Rightarrow> c) = Some e'
                    \<and> lastUsed e' = now))"
proof (intro conjI impI)
  have d: "distinct (map fst (pool m))"
    unfolding assms by (rule reachable_distinct)
  assume h: "(k, e) \<in> set (pool m) \<and> now - lastUsed e \<le> idleTimeoutMs m"
  then show c: "(k, e) \<in> set (pool (cleanupIdle now m))"
    by (simp add: cleanupIdle_distinct [OF d])
  then show "(k, e) \<in> set (pool (poolStep now PoolCleanupTick m))"
    using h by simp
next
  assume "map_of (pool m) k = Some e"
  then show "map_of (pool (getOrCreateRunner now k m)) k = Some (e\<lparr>lastUsed := now\<rparr>)"
    by (rule getOrCreateRunner_hit)
next
  assume h: "map_of (pool m) (case channelId_opt opts of None \<Rightarrow> DEFAULT_CHANNEL | Some c \<Rightarrow> c) = Some e"
  show "\<exists>e'. map_of (pool (snd (run_mgr now p opts m)))
                       (case channelId_opt opts of None \<Rightarrow> DEFAULT_CHANNEL | Some c \<Rightarrow> c) = Some e'
                    \<and> lastUsed e' = now"
    unfolding run_mgr_def using h by (rule dispatch_hit)
  show "\<exists>e'. map_of (pool (snd (runStream_mgr now p opts m)))
                       (case channelId_opt opts of None \<Rightarrow> DEFAULT_CHANNEL | Some c \<Rightarrow> c) = Some e'
                    \<and> lastUsed e' = now"
    unfolding runStream_mgr_def using h by (rule dispatch_hit)
qed

theorem idle_sweep_and_hits_witness:
  "(''ch1'', the (map_of (pool (poolExec (newManager 300000 (Some 5) (Some 600000))
        [(0, PoolRun ''msg1'' \<lparr>skipPermissions_opt = None, sessionId_opt = None, channelId_opt = Some ''ch1''\<rparr>),
         (1000, PoolRun ''msg2'' \<lparr>skipPermissions_opt = None, sessionId_opt = None, channelId_opt = Some ''ch2''\<rparr>)]))
        ''ch1''))
     \<in> set (pool (cleanupIdle 600000 (poolExec (newManager 300000 (Some 5) (Some 600000))
        [(0, PoolRun ''msg1'' \<lparr>skipPermissions_opt = None, sessionId_opt = None, channelId_opt = Some ''ch1''\<rparr>),
         (1000, PoolRun ''msg2'' \<lparr>skipPermissions_opt = None, sessionId_opt = None, channelId_opt = Some ''ch2''\<rparr>)])))
   \<and> map_option lastUsed (map_of (pool (getOrCreateRunner 500000 ''ch1''
        (poolExec (newManager 300000 (Some 5) (Some 600000))
        [(0, PoolRun ''msg1'' \<lparr>skipPermissions_opt = None, sessionId_opt = None, channelId_opt = Some ''ch1''\<rparr>),
         (1000, PoolRun ''msg2'' \<lparr>skipPermissions_opt = None, sessionId_opt = None, channelId_opt = Some ''ch2''\<rparr>)])))
        ''ch1'') = Some 500000
   \<and> map_option lastUsed (map_of (pool (snd (run_mgr 500000 ''msg3''
        \<lparr>skipPermissions_opt = None, sessionId_opt = None, channelId_opt = Some ''ch1''\<rparr>
        (poolExec (newManager 300000 (Some 5) (Some 600000))
        [(0, PoolRun ''msg1'' \<lparr>skipPermissions_opt = None, sessionId_opt = None, channelId_opt = Some ''ch1''\<rparr>),
         (1000, PoolRun ''msg2'' \<lparr>skipPermissions_opt = None, sessionId_opt = None, channelId_opt = Some ''ch2''\<rparr>)]))))
        ''ch1'') = Some 500000"
proof -
  let ?o1 = "\<lparr>skipPermissions_opt = None, sessionId_opt = None, channelId_opt = Some ''ch1''\<rparr>"
  let ?m = "poolExec (newManager 300000 (Some 5) (Some 600000))
        [(0, PoolRun ''msg1'' ?o1),
         (1000, PoolRun ''msg2'' \<lparr>skipPermissions_opt = None, sessionId_opt = None, channelId_opt = Some ''ch2''\<rparr>)]"
  let ?e = "the (map_of (pool ?m) ''ch1'')"
  have h1: "map_of (pool ?m) ''ch1'' = Some ?e \<and> lastUsed ?e = 0 \<and> idleTimeoutMs ?m = 600000"
    by code_simp
  then have h2: "(''ch1'', ?e) \<in> set (pool ?m)"
    by (meson map_of_SomeD)
  have h3: "(case channelId_opt ?o1 of None \<Rightarrow> DEFAULT_CHANNEL | Some c \<Rightarrow> c) = ''ch1''"
    by simp
  show ?thesis
    using idle_sweep_and_hits [of ?m 300000 "Some 5" "Some 600000" _ "''ch1''" ?e 600000 ?o1 "''msg3''", OF refl]
      idle_sweep_and_hits [of ?m 300000 "Some 5" "Some 600000" _ "''ch1''" ?e 500000 ?o1 "''msg3''", OF refl]
      h1 h2 h3
    by auto
qed

lemma shutdown_without_process: "process r = None \<Longrightarrow> shutdown r = r"
  by (simp add: shutdown_def)

lemma shutdown_with_process:
  assumes "process r = Some p"
  shows "process (shutdown r) = None" "\<not> processAlive (shutdown r)" "shuttingDown (shutdown r)"
    "queue (shutdown r) = []" "currentItem (shutdown r) = None"
    "effects (shutdown r) = effects r @ [StdinEnd p, Kill p]"
    "settled (shutdown r)
       = settled r @ map (\<lambda>it. (ident it, Rejected ShuttingDown)) (queue r @ inFlight r)"
  using assms
  by (auto simp: shutdown_def Let_def killProcess_def rejectQueued_def settleCurrent_def inFlight_def
      split: option.splits)

lemma fold_removeEntry_released:
  assumes "distinct (map fst (pool m))" "set ys \<subseteq> set (pool m)" "distinct (map fst ys)"
  shows "released (fold removeEntry (map fst ys) m)
           = released m @ map (\<lambda>x. (fst x, shutdown (runner (snd x)))) ys"
  using assms
proof (induction ys arbitrary: m)
  case Nil
  then show ?case by simp
next
  case (Cons y ys)
  have y: "map_of (pool m) (fst y) = Some (snd y)"
    using Cons.prems(1,2) by (cases y) auto
  have 1: "distinct (map fst (pool (removeEntry (fst y) m)))"
    using Cons.prems(1) by (rule removeEntry_distinct)
  have 2: "set ys \<subseteq> set (pool (removeEntry (fst y) m))"
  proof
    fix x assume x: "x \<in> set ys"
    have "fst y \<notin> set (map fst ys)" using Cons.prems(3) by simp
    then have "fst x \<noteq> fst y" using x by (metis imageI set_map)
    then show "x \<in> set (pool (removeEntry (fst y) m))"
      using x Cons.prems(2) by (auto simp: removeEntry_pool)
  qed
  have 3: "distinct (map fst ys)" using Cons.prems(3) by simp
  show ?case
    using Cons.IH [OF 1 2 3] y by (simp add: removeEntry_released)
qed

lemma cleanupIdle_released:
  assumes "distinct (map fst (pool m))"
  shows "released (cleanupIdle now m)
           = released m @ map (\<lambda>x. (fst x, shutdown (runner (snd x))))
                            (filter (\<lambda>x. idleTimeoutMs m < now - lastUsed (snd x)) (pool m))"
  unfolding cleanupIdle_def Let_def
  using assms by (intro fold_removeEntry_released) (auto simp: distinct_filter_keys)

lemma scan_from_Some:
  "fold scanStep es (oc, Some t) = (oc, Some t) \<and> (\<forall>x \<in> set es. t \<le> lastUsed (snd x))
   \<or> (\<exists>x \<in> set es. fold scanStep es (oc, Some t) = (Some (fst x), Some (lastUsed (snd x)))
         \<and> lastUsed (snd x) < t \<and> (\<forall>y \<in> set es. lastUsed (snd x) \<le> lastUsed (snd y)))"
proof (induction es arbitrary: oc t)
  case Nil
  then show ?case by simp
next
  case (Cons a es)
  show ?case
  proof (cases "lastUsed (snd a) < t")
    case True
    then have s: "fold scanStep (a # es) (oc, Some t) = fold scanStep es (Some (fst a), Some (lastUsed (snd a)))"
      by (simp add: scanStep_def)
    from Cons.IH [of "Some (fst a)" "lastUsed (snd a)"] show ?thesis
    proof
      assume "fold scanStep es (Some (fst a), Some (lastUsed (snd a))) = (Some (fst a), Some (lastUsed (snd a)))
          \<and> (\<forall>x\<in>set es. lastUsed (snd a) \<le> lastUsed (snd x))"
      then show ?thesis using s True by auto
    next
      assume "\<exists>x\<in>set es. fold scanStep es (Some (fst a), Some (lastUsed (snd a)))
            = (Some (fst x), Some (lastUsed (snd x)))
          \<and> lastUsed (snd x) < lastUsed (snd a) \<and> (\<forall>y\<in>set es. lastUsed (snd x) \<le> lastUsed (snd y))"
      then show ?thesis using s True by fastforce
    qed
  next
    case False
    then have s: "fold scanStep (a # es) (oc, Some t) = fold scanStep es (oc, Some t)"
      by (simp add: scanStep_def)
    from Cons.IH [of oc t] show ?thesis
    proof
      assume "fold scanStep es (oc, Some t) = (oc, Some t) \<and> (\<forall>x\<in>set es. t \<le> lastUsed (snd x))"
      then show ?thesis using s False by auto
    next
      assume "\<exists>x\<in>set es. fold scanStep es (oc, Some t) = (Some (fst x), Some (lastUsed (snd x)))
          \<and> lastUsed (snd x) < t \<and> (\<forall>y\<in>set es. lastUsed (snd x) \<le> lastUsed (snd y))"
      then show ?thesis using s False by fastforce
    qed
  qed
qed

lemma scanOldest_Nil: "scanOldest [] = (None, None)"
  by (simp add: scanOldest_def)

lemma scanOldest_oldest:
  assumes "es \<noteq> []"
  shows "\<exists>x \<in> set es. fst (scanOldest es) = Some (fst x)
           \<and> (\<forall>y \<in> set es. lastUsed (snd x) \<le> lastUsed (snd y))"
proof -
  obtain a rest where es: "es = a # rest" using assms by (cases es) auto
  have s: "scanOldest es = fold scanStep rest (Some (fst a), Some (lastUsed (snd a)))"
    by (simp add: es scanOldest_def scanStep_def)
  from scan_from_Some [of rest "Some (fst a)" "lastUsed (snd a)"] show ?thesis
  proof
    assume "fold scanStep rest (Some (fst a), Some (lastUsed (snd a)))
          = (Some (fst a), Some (lastUsed (snd a)))
        \<and> (\<forall>x\<in>set rest. lastUsed (snd a) \<le> lastUsed (snd x))"
    then show ?thesis using s es by auto
  next
    assume "\<exists>x\<in>set rest. fold scanStep rest (Some (fst a), Some (lastUsed (snd a)))
          = (Some (fst x), Some (lastUsed (snd x)))
        \<and> lastUsed (snd x) < lastUsed (snd a) \<and> (\<forall>y\<in>set rest. lastUsed (snd x) \<le> lastUsed (snd y))"
    then show ?thesis using s es by fastforce
  qed
qed

lemma removeEntry_Some:
  "map_of (pool m) k = Some e \<Longrightarrow>
     removeEntry k m = m\<lparr>pool := filter (\<lambda>x. fst x \<noteq> k) (pool m),
                          released := released m @ [(k, shutdown (runner e))]\<rparr>"
  by (simp add: removeEntry_def)

lemma removeEntry_None: "map_of (pool m) k = None \<Longrightarrow> removeEntry k m = m"
  by (simp add: removeEntry_def)

lemma evictLRU_cases:
  "evictLRU m = m
   \<or> (\<exists>k e. map_of (pool m) k = Some e
         \<and> evictLRU m = m\<lparr>pool := filter (\<lambda>x. fst x \<noteq> k) (pool m),
                             released := released m @ [(k, shutdown (runner e))]\<rparr>)"
proof (cases "fst (scanOldest (pool m))")
  case None
  then show ?thesis by (simp add: evictLRU_def)
next
  case (Some k)
  show ?thesis
  proof (cases "truthy k \<and> map_of (pool m) k \<noteq> None")
    case True
    then obtain e where "map_of (pool m) k = Some e" by auto
    then show ?thesis
      using Some True removeEntry_Some [of m k e] by (auto simp: evictLRU_def)
  next
    case False
    then show ?thesis
      using Some removeEntry_None [of m k] by (auto simp: evictLRU_def)
  qed
qed

lemma enqueue_ignores_shuttingDown:
  "enqueue cb now q (r\<lparr>shuttingDown := b\<rparr>) = (enqueue cb now q r)\<lparr>shuttingDown := b\<rparr>"
  by (auto simp: enqueue_def processNext_def ensureProcess_def spawnProcess_def Let_def
      split: list.splits)

lemma enqueue_after_shutdown:
  assumes "process r = Some p" "\<not> fst (getCircuitBreakerStatus now r)"
  shows "currentItem (enqueue cb now q (shutdown r))
           = Some \<lparr>ident = nextId r, prompt = q, callbacks = cb\<rparr>"
    and "queue (enqueue cb now q (shutdown r)) = []"
    and "process (enqueue cb now q (shutdown r)) = Some (spawned r)"
    and "processAlive (enqueue cb now q (shutdown r))"
    and "effects (enqueue cb now q (shutdown r))
           = effects r @ [StdinEnd p, Kill p, Spawn (spawned r), StdinWrite (spawned r) q]"
    and "settled (enqueue cb now q (shutdown r)) = settled (shutdown r)"
  using assms
  by (auto simp: shutdown_def enqueue_def processNext_def ensureProcess_def spawnProcess_def
      killProcess_def rejectQueued_def settleCurrent_def getCircuitBreakerStatus_def Let_def
      split: option.splits)

text \<open>
  Without a process handle \<^verbatim>\<open>shutdown()\<close> skips its whole body. After a cancellation
  (process handle cleared, one request queued) it rejects nothing, also when \<^verbatim>\<open>destroy\<close>
  calls it, and the close event of the cancelled process then starts the queued request
  on a new process.
\<close>

lemma shutdown_without_handle_keeps_queue:
  "process (finalState (newRunner 1000) [(0, Run ''a''), (1, Run ''b''), (2, Cancel)]) = None
   \<and> queue (shutdown (finalState (newRunner 1000) [(0, Run ''a''), (1, Run ''b''), (2, Cancel)]))
       = [\<lparr>ident = 1, prompt = ''b'', callbacks = False\<rparr>]
   \<and> settled (shutdown (finalState (newRunner 1000) [(0, Run ''a''), (1, Run ''b''), (2, Cancel)]))
       = [(0, Rejected CancelledByUser)]
   \<and> map (\<lambda>x. (fst x, map ident (queue (snd x)), settled (snd x)))
        (released (poolExec (newManager 1000 None None)
          [(0, PoolRun ''a'' \<lparr>skipPermissions_opt = None, sessionId_opt = None, channelId_opt = Some ''ch1''\<rparr>),
           (1, PoolRun ''b'' \<lparr>skipPermissions_opt = None, sessionId_opt = None, channelId_opt = Some ''ch1''\<rparr>),
           (2, PoolEvent ''ch1'' Cancel),
           (3, PoolDestroy ''ch1'')]))
       = [(''ch1'', [1], [(0, Rejected CancelledByUser)])]
   \<and> currentItem (finalState (newRunner 1000)
        [(0, Run ''a''), (1, Run ''b''), (2, Cancel), (3, Shutdown), (4, Close 0)])
       = Some \<lparr>ident = 1, prompt = ''b'', callbacks = False\<rparr>
   \<and> process (finalState (newRunner 1000)
        [(0, Run ''a''), (1, Run ''b''), (2, Cancel), (3, Shutdown), (4, Close 0)]) = Some 1"
  by code_simp

text \<open>
  Claim C5, amended. On a session that holds a process handle, \<^verbatim>\<open>shutdown()\<close> ends the
  input of the process, kills it, sets \<open>shuttingDown\<close> and rejects every queued request
  and then the request in flight with the shutting-down error. It does not stop the
  session from accepting work: \<^verbatim>\<open>run\<close> and \<^verbatim>\<open>runStream\<close> (\<open>enqueue\<close>) do the same whether
  or not \<open>shuttingDown\<close> is set, and after such a shutdown, with the breaker closed, the
  next request is dispatched to a newly spawned process and is not rejected. Every
  destruction path of the pool (\<^verbatim>\<open>destroy\<close>, LRU eviction, idle sweep, pool shutdown)
  calls \<^verbatim>\<open>shutdown()\<close> on each session it removes. Nothing is said here of a session
  without a process handle.
\<close>

theorem shutdown_and_destruction:
  assumes "m = poolExec (newManager cfg maxP idle) ops"
  shows "(process r = Some p \<longrightarrow>
            process (shutdown r) = None \<and> \<not> processAlive (shutdown r) \<and> shuttingDown (shutdown r)
            \<and> effects (shutdown r) = effects r @ [StdinEnd p, Kill p]
            \<and> queue (shutdown r) = [] \<and> currentItem (shutdown r) = None
            \<and> settled (shutdown r)
                = settled r @ map (\<lambda>it. (ident it, Rejected ShuttingDown)) (queue r @ inFlight r))
         \<and> enqueue cb now q (r\<lparr>shuttingDown := True\<rparr>) = (enqueue cb now q r)\<lparr>shuttingDown := True\<rparr>
         \<and> (process r = Some p \<and> \<not> fst (getCircuitBreakerStatus now r) \<longrightarrow>
              currentItem (enqueue cb now q (shutdown r))
                = Some \<lparr>ident = nextId r, prompt = q, callbacks = cb\<rparr>
              \<and> queue (enqueue cb now q (shutdown r)) = []
              \<and> process (enqueue cb now q (shutdown r)) = Some (spawned r)
              \<and> processAlive (enqueue cb now q (shutdown r))
              \<and> effects (enqueue cb now q (shutdown r))
                  = effects r @ [StdinEnd p, Kill p, Spawn (spawned r), StdinWrite (spawned r) q]
              \<and> settled (enqueue cb now q (shutdown r)) = settled (shutdown r))
         \<and> (map_of (pool m) k = Some e \<longrightarrow>
              destroy k m = (True, m\<lparr>pool := filter (\<lambda>x. fst x \<noteq> k) (pool m),
                                       released := released m @ [(k, shutdown (runner e))]\<rparr>))
         \<and> (evictLRU m \<noteq> m \<longrightarrow>
              (\<exists>k' e'. map_of (pool m) k' = Some e'
                 \<and> evictLRU m = m\<lparr>pool := filter (\<lambda>x. fst x \<noteq> k') (pool m),
                                     released := released m @ [(k', shutdown (runner e'))]\<rparr>))
         \<and> pool (cleanupIdle now m)
             = filter (\<lambda>x. \<not> idleTimeoutMs m < now - lastUsed (snd x)) (pool m)
         \<and> released (cleanupIdle now m)
             = released m @ map (\<lambda>x. (fst x, shutdown (runner (snd x))))
                              (filter (\<lambda>x. idleTimeoutMs m < now - lastUsed (snd x)) (pool m))
         \<and> pool (shutdown_mgr m) = []
         \<and> released (shutdown_mgr m)
             = released m @ map (\<lambda>x. (fst x, shutdown (runner (snd x)))) (pool m)"
proof (intro conjI impI)
  have d: "distinct (map fst (pool m))"
    unfolding assms by (rule reachable_distinct)
  show "pool (cleanupIdle now m)
             = filter (\<lambda>x. \<not> idleTimeoutMs m < now - lastUsed (snd x)) (pool m)"
    using d by (rule cleanupIdle_distinct)
  show "released (cleanupIdle now m)
             = released m @ map (\<lambda>x. (fst x, shutdown (runner (snd x))))
                              (filter (\<lambda>x. idleTimeoutMs m < now - lastUsed (snd x)) (pool m))"
    using d by (rule cleanupIdle_released)
  show "pool (shutdown_mgr m) = []"
    by (simp add: shutdown_mgr_def)
  show "released (shutdown_mgr m)
             = released m @ map (\<lambda>x. (fst x, shutdown (runner (snd x)))) (pool m)"
    by (simp add: shutdown_mgr_def)
  show "enqueue cb now q (r\<lparr>shuttingDown := True\<rparr>) = (enqueue cb now q r)\<lparr>shuttingDown := True\<rparr>"
    by (rule enqueue_ignores_shuttingDown)
  show "destroy k m = (True, m\<lparr>pool := filter (\<lambda>x. fst x \<noteq> k) (pool m),
                                       released := released m @ [(k, shutdown (runner e))]\<rparr>)"
    if "map_of (pool m) k = Some e"
    using that by (simp add: destroy_def removeEntry_Some)
  show "\<exists>k' e'. map_of (pool m) k' = Some e'
                 \<and> evictLRU m = m\<lparr>pool := filter (\<lambda>x. fst x \<noteq> k') (pool m),
                                     released := released m @ [(k', shutdown (runner e'))]\<rparr>"
    if "evictLRU m \<noteq> m"
    using that evictLRU_cases [of m] by blast
next
  assume p: "process r = Some p"
  show "process (shutdown r) = None" "\<not> processAlive (shutdown r)" "shuttingDown (shutdown r)"
    "effects (shutdown r) = effects r @ [StdinEnd p, Kill p]"
    "queue (shutdown r) = []" "currentItem (shutdown r) = None"
    "settled (shutdown r)
                = settled r @ map (\<lambda>it. (ident it, Rejected ShuttingDown)) (queue r @ inFlight r)"
    using shutdown_with_process [OF p] by simp_all
next
  assume h: "process r = Some p \<and> \<not> fst (getCircuitBreakerStatus now r)"
  then have a: "process r = Some p" "\<not> fst (getCircuitBreakerStatus now r)" by simp_all
  show "currentItem (enqueue cb now q (shutdown r))
                = Some \<lparr>ident = nextId r, prompt = q, callbacks = cb\<rparr>"
    using enqueue_after_shutdown(1) [OF a] .
  show "queue (enqueue cb now q (shutdown r)) = []"
    using enqueue_after_shutdown(2) [OF a] .
  show "process (enqueue cb now q (shutdown r)) = Some (spawned r)"
    using enqueue_after_shutdown(3) [OF a] .
  show "processAlive (enqueue cb now q (shutdown r))"
    using enqueue_after_shutdown(4) [OF a] .
  show "effects (enqueue cb now q (shutdown r))
                  = effects r @ [StdinEnd p, Kill p, Spawn (spawned r), StdinWrite (spawned r) q]"
    using enqueue_after_shutdown(5) [OF a] .
  show "settled (enqueue cb now q (shutdown r)) = settled (shutdown r)"
    using enqueue_after_shutdown(6) [OF a] .
qed

text \<open>
  Claim C5 as stated fails: \<^verbatim>\<open>shutdown()\<close> does not stop the session from accepting work.
  A request made after the shutdown of a session with a process is not rejected; it
  is dispatched to a newly spawned process.
\<close>

theorem shutdown_counterexample:
  "shuttingDown (finalState (newRunner 1000) [(0, Run ''a''), (1, Shutdown)])
   \<and> currentItem (finalState (newRunner 1000) [(0, Run ''a''), (1, Shutdown), (2, Run ''b'')])
       = Some \<lparr>ident = 1, prompt = ''b'', callbacks = False\<rparr>
   \<and> process (finalState (newRunner 1000) [(0, Run ''a''), (1, Shutdown), (2, Run ''b'')]) = Some 1
   \<and> settled (finalState (newRunner 1000) [(0, Run ''a''), (1, Shutdown), (2, Run ''b'')])
       = [(0, Rejected ShuttingDown)]
   \<and> effects (finalState (newRunner 1000) [(0, Run ''a''), (1, Shutdown), (2, Run ''b'')])
       = [Spawn 0, StdinWrite 0 ''a'', StdinEnd 0, Kill 0, Spawn 1, StdinWrite 1 ''b'']"
  by code_simp

theorem shutdown_and_destruction_witness:
  "settled (shutdown (run 1 ''b'' (run 0 ''a'' (newRunner 1000))))
     = [(1, Rejected ShuttingDown), (0, Rejected ShuttingDown)]
   \<and> queue (shutdown (run 1 ''b'' (run 0 ''a'' (newRunner 1000)))) = []
   \<and> effects (shutdown (run 1 ''b'' (run 0 ''a'' (newRunner 1000))))
       = [Spawn 0, StdinWrite 0 ''a'', StdinEnd 0, Kill 0]
   \<and> currentItem (enqueue False 9 ''c'' (shutdown (run 1 ''b'' (run 0 ''a'' (newRunner 1000)))))
       = Some \<lparr>ident = 2, prompt = ''c'', callbacks = False\<rparr>
   \<and> process (enqueue False 9 ''c'' (shutdown (run 1 ''b'' (run 0 ''a'' (newRunner 1000))))) = Some 1
   \<and> fst (destroy ''ch1'' (poolExec (newManager 1000 (Some 2) (Some 600000))
        [(0, PoolRun ''a'' \<lparr>skipPermissions_opt = None, sessionId_opt = None, channelId_opt = Some ''ch1''\<rparr>),
         (1000, PoolRun ''b'' \<lparr>skipPermissions_opt = None, sessionId_opt = None, channelId_opt = Some ''ch2''\<rparr>)]))
   \<and> map fst (pool (snd (destroy ''ch1'' (poolExec (newManager 1000 (Some 2) (Some 600000))
        [(0, PoolRun ''a'' \<lparr>skipPermissions_opt = None, sessionId_opt = None, channelId_opt = Some ''ch1''\<rparr>),
         (1000, PoolRun ''b'' \<lparr>skipPermissions_opt = None, sessionId_opt = None, channelId_opt = Some ''ch2''\<rparr>)]))))
       = [''ch2'']
   \<and> length (released (evictLRU (poolExec (newManager 1000 (Some 2) (Some 600000))
        [(0, PoolRun ''a'' \<lparr>skipPermissions_opt = None, sessionId_opt = None, channelId_opt = Some ''ch1''\<rparr>),
         (1000, PoolRun ''b'' \<lparr>skipPermissions_opt = None, sessionId_opt = None, channelId_opt = Some ''ch2''\<rparr>)])))
       = 1"
proof -
  let ?r = "run 1 ''b'' (run 0 ''a'' (newRunner 1000))"
  let ?m = "poolExec (newManager 1000 (Some 2) (Some 600000))
        [(0, PoolRun ''a'' \<lparr>skipPermissions_opt = None, sessionId_opt = None, channelId_opt = Some ''ch1''\<rparr>),
         (1000, PoolRun ''b'' \<lparr>skipPermissions_opt = None, sessionId_opt = None, channelId_opt = Some ''ch2''\<rparr>)]"
  let ?e = "the (map_of (pool ?m) ''ch1'')"
  note T1 = shutdown_and_destruction [where m = ?m and cfg = 1000 and maxP = "Some 2"
      and idle = "Some 600000" and r = ?r and p = 0 and cb = False and now = 9 and q = "''c''"
      and k = "''ch1''" and e = ?e, OF refl]
  have hr: "process ?r = Some 0"
    by code_simp
  have hb: "\<not> fst (getCircuitBreakerStatus 9 ?r)"
    by code_simp
  have sr: "settled ?r = []" "effects ?r = [Spawn 0, StdinWrite 0 ''a'']"
    "map (\<lambda>it. (ident it, Rejected ShuttingDown)) (queue ?r @ inFlight ?r)
       = [(1, Rejected ShuttingDown), (0, Rejected ShuttingDown)]"
    "nextId ?r = 2" "spawned ?r = 1"
    by code_simp+
  have hm: "map_of (pool ?m) ''ch1'' = Some ?e" "released ?m = []"
    "map fst (filter (\<lambda>x. fst x \<noteq> ''ch1'') (pool ?m)) = [''ch2'']"
    by code_simp+
  have l: "length (released (evictLRU ?m)) = 1"
    by code_simp
  then have he: "evictLRU ?m \<noteq> ?m"
    using hm(2) by auto
  from hr T1 have a: "settled (shutdown ?r)
       = settled ?r @ map (\<lambda>it. (ident it, Rejected ShuttingDown)) (queue ?r @ inFlight ?r)"
    "queue (shutdown ?r) = []" "effects (shutdown ?r) = effects ?r @ [StdinEnd 0, Kill 0]"
    by simp_all
  from hr hb T1 have n: "currentItem (enqueue False 9 ''c'' (shutdown ?r))
       = Some \<lparr>ident = nextId ?r, prompt = ''c'', callbacks = False\<rparr>"
    "process (enqueue False 9 ''c'' (shutdown ?r)) = Some (spawned ?r)"
    by simp_all
  from hm(1) T1 have b: "destroy ''ch1'' ?m
       = (True, ?m\<lparr>pool := filter (\<lambda>x. fst x \<noteq> ''ch1'') (pool ?m),
                     released := released ?m @ [(''ch1'', shutdown (runner ?e))]\<rparr>)"
    by simp
  note c = T1 [THEN conjunct2, THEN conjunct2, THEN conjunct2, THEN conjunct2, THEN conjunct1,
      THEN mp, OF he]
  show ?thesis
    using a n b c l sr hm by simp
qed

text \<open>
  Claim C2, at the failing input. \<^verbatim>\<open>run\<close> of the manager with a session id creates the
  session, then calls the missing \<^verbatim>\<open>setSessionId\<close>: the promise is rejected with the
  \<^verbatim>\<open>TypeError\<close>, the session id of the session is still empty and the request never
  reaches the session.
\<close>

theorem setSessionId_missing:
  "run_mgr 3 ''hi'' \<lparr>skipPermissions_opt = None, sessionId_opt = Some ''abc'', channelId_opt = Some ''ch1''\<rparr>
      (newManager 300000 None None)
   = (Some (NotAFunction ''setSessionId''),
      (newManager 300000 None None)\<lparr>pool := [(''ch1'', \<lparr>runner = newRunner 300000, lastUsed = 3\<rparr>)]\<rparr>)"
  by (simp add: run_mgr_def dispatch_def getOrCreateRunner_def newManager_def truthyOpt_def
      truthy_def Let_def)

subsection \<open>Capacity while no channel has the empty id\<close>

text \<open>
  As long as no request names the channel with the empty id, every key in the pool is
  truthy, so \<^verbatim>\<open>evictLRU\<close> on a non-empty pool removes exactly one entry, one with the
  smallest \<open>lastUsed\<close>, after shutting its session down, and the pool stays within its
  capacity.
\<close>

lemma length_filter_key:
  "distinct (map fst xs) \<Longrightarrow> x \<in> set xs \<Longrightarrow>
     Suc (length (filter (\<lambda>y. fst y \<noteq> fst x) xs)) = length xs"
proof (induction xs)
  case Nil
  then show ?case by simp
next
  case (Cons a xs)
  show ?case
  proof (cases "a = x")
    case True
    then have "fst x \<notin> fst ` set xs" using Cons.prems(1) by auto
    then have "\<forall>y \<in> set xs. fst y \<noteq> fst x" by (metis imageI)
    then have "filter (\<lambda>y. fst y \<noteq> fst x) xs = xs"
      by (simp add: filter_id_conv)
    then show ?thesis using True by simp
  next
    case False
    then have x: "x \<in> set xs" using Cons.prems(2) by simp
    then have "fst a \<noteq> fst x" using Cons.prems(1) by (metis distinct.simps(2) imageI list.simps(9) set_map)
    then show ?thesis using Cons.IH x Cons.prems(1) by simp
  qed
qed

lemma evictLRU_full:
  assumes "poolOk m" "pool m \<noteq> []"
  shows "\<exists>x \<in> set (pool m).
           (\<forall>y \<in> set (pool m). lastUsed (snd x) \<le> lastUsed (snd y))
           \<and> evictLRU m = m\<lparr>pool := filter (\<lambda>y. fst y \<noteq> fst x) (pool m),
                               released := released m @ [(fst x, shutdown (runner (snd x)))]\<rparr>
           \<and> Suc (length (pool (evictLRU m))) = length (pool m)"
proof -
  have d: "distinct (map fst (pool m))" and ne: "[] \<notin> set (map fst (pool m))"
    using assms(1) by (simp_all add: poolOk_def)
  obtain x where x: "x \<in> set (pool m)" "fst (scanOldest (pool m)) = Some (fst x)"
    "\<forall>y \<in> set (pool m). lastUsed (snd x) \<le> lastUsed (snd y)"
    using scanOldest_oldest [OF assms(2)] by blast
  have "fst x \<noteq> []" using x(1) ne by (metis imageI set_map)
  then have t: "truthy (fst x)" by (simp add: truthy_def)
  have mo: "map_of (pool m) (fst x) = Some (snd x)"
    using d x(1) by (cases x) auto
  have e: "evictLRU m = m\<lparr>pool := filter (\<lambda>y. fst y \<noteq> fst x) (pool m),
                               released := released m @ [(fst x, shutdown (runner (snd x)))]\<rparr>"
    using x(2) t mo by (simp add: evictLRU_def removeEntry_Some)
  have "Suc (length (pool (evictLRU m))) = length (pool m)"
    unfolding e using length_filter_key [OF d x(1)] by simp
  then show ?thesis using x(1) x(3) e by blast
qed

lemma getOrCreateRunner_miss_full:
  assumes "poolOk m" "map_of (pool m) k = None" "maxProcesses m \<le> int (length (pool m))"
  shows "\<exists>x \<in> set (pool m).
           (\<forall>y \<in> set (pool m). lastUsed (snd x) \<le> lastUsed (snd y))
           \<and> pool (getOrCreateRunner now k m)
               = filter (\<lambda>y. fst y \<noteq> fst x) (pool m)
                 @ [(k, \<lparr>runner = newRunner (agentConfig m), lastUsed = now\<rparr>)]
           \<and> released (getOrCreateRunner now k m)
               = released m @ [(fst x, shutdown (runner (snd x)))]
           \<and> length (pool (getOrCreateRunner now k m)) = length (pool m)"
proof -
  have "pool m \<noteq> []" using assms(1,3) by (auto simp: poolOk_def)
  then obtain x where x: "x \<in> set (pool m)"
    "\<forall>y \<in> set (pool m). lastUsed (snd x) \<le> lastUsed (snd y)"
    "evictLRU m = m\<lparr>pool := filter (\<lambda>y. fst y \<noteq> fst x) (pool m),
                               released := released m @ [(fst x, shutdown (runner (snd x)))]\<rparr>"
    "Suc (length (pool (evictLRU m))) = length (pool m)"
    using evictLRU_full [OF assms(1)] by blast
  have g: "getOrCreateRunner now k m
      = (evictLRU m)\<lparr>pool := pool (evictLRU m) @ [(k, \<lparr>runner = newRunner (agentConfig m), lastUsed = now\<rparr>)]\<rparr>"
    using assms(2,3) by (simp add: getOrCreateRunner_def Let_def)
  have 1: "pool (getOrCreateRunner now k m)
               = filter (\<lambda>y. fst y \<noteq> fst x) (pool m)
                 @ [(k, \<lparr>runner = newRunner (agentConfig m), lastUsed = now\<rparr>)]"
    unfolding g by (simp add: x(3))
  have 2: "released (getOrCreateRunner now k m) = released m @ [(fst x, shutdown (runner (snd x)))]"
    unfolding g by (simp add: x(3))
  have 3: "length (pool (getOrCreateRunner now k m)) = length (pool m)"
    unfolding g using x(4) by simp
  show ?thesis using x(1,2) 1 2 3 by blast
qed

lemma getOrCreateRunner_poolOk:
  assumes "poolOk m" "k \<noteq> []"
  shows "poolOk (getOrCreateRunner now k m)"
proof (cases "map_of (pool m) k")
  case (Some e)
  then show ?thesis
    using assms(1) by (simp add: getOrCreateRunner_def poolOk_def map_fst_update)
next
  case None
  then have nk: "k \<notin> set (map fst (pool m))" by (simp add: map_of_eq_None_iff)
  have d: "distinct (map fst (pool m))" using assms(1) by (simp add: poolOk_def)
  show ?thesis
  proof (cases "maxProcesses m \<le> int (length (pool m))")
    case True
    obtain x where x: "pool (getOrCreateRunner now k m)
               = filter (\<lambda>y. fst y \<noteq> fst x) (pool m)
                 @ [(k, \<lparr>runner = newRunner (agentConfig m), lastUsed = now\<rparr>)]"
      "length (pool (getOrCreateRunner now k m)) = length (pool m)"
      using getOrCreateRunner_miss_full [OF assms(1) None True, of now] by auto
    have mp: "maxProcesses (getOrCreateRunner now k m) = maxProcesses m"
      using None by (simp add: getOrCreateRunner_def Let_def)
    have "distinct (map fst (pool (getOrCreateRunner now k m)))"
      using d by (rule getOrCreateRunner_distinct)
    moreover have "[] \<notin> set (map fst (pool (getOrCreateRunner now k m)))"
      unfolding x(1) using assms by (force simp: poolOk_def)
    ultimately show ?thesis
      using assms(1) x(2) mp by (simp add: poolOk_def)
  next
    case False
    then show ?thesis
      using None nk assms by (auto simp: getOrCreateRunner_def Let_def poolOk_def)
  qed
qed

lemma poolOk_filter:
  "poolOk m \<Longrightarrow> pool m' = filter P (pool m) \<Longrightarrow> maxProcesses m' = maxProcesses m \<Longrightarrow> poolOk m'"
proof -
  assume a: "poolOk m" "pool m' = filter P (pool m)" "maxProcesses m' = maxProcesses m"
  have "length (filter P (pool m)) \<le> length (pool m)" by simp
  then have "int (length (filter P (pool m))) \<le> maxProcesses m"
    using a(1) unfolding poolOk_def by linarith
  then show ?thesis
    using a by (auto simp: poolOk_def distinct_filter_keys)
qed

lemma onRunner_poolOk: "poolOk m \<Longrightarrow> poolOk (onRunner k f m)"
  by (simp add: poolOk_def onRunner_def map_fst_update)

lemma dispatch_poolOk:
  assumes "poolOk m" "channelId_opt opts \<noteq> Some []"
  shows "poolOk (snd (dispatch cb now p opts m))"
proof -
  let ?k = "case channelId_opt opts of None \<Rightarrow> DEFAULT_CHANNEL | Some c \<Rightarrow> c"
  have "?k \<noteq> []" using assms(2) by (auto simp: DEFAULT_CHANNEL_def split: option.splits)
  then have "poolOk (getOrCreateRunner now ?k m)"
    using assms(1) getOrCreateRunner_poolOk by blast
  then show ?thesis
    by (simp add: dispatch_def Let_def onRunner_poolOk)
qed

lemma poolStep_poolOk:
  assumes "poolOk m" "nonEmptyChannel opn"
  shows "poolOk (poolStep now opn m)"
proof (cases opn)
  case (PoolRun p opts)
  then show ?thesis using assms by (simp add: run_mgr_def dispatch_poolOk)
next
  case (PoolRunStream p opts)
  then show ?thesis using assms by (simp add: runStream_mgr_def dispatch_poolOk)
next
  case (PoolDestroy k)
  have "poolOk (removeEntry k m)"
    using assms(1) by (rule poolOk_filter [where P = "\<lambda>x. fst x \<noteq> k"]) (simp_all add: removeEntry_pool)
  then show ?thesis using PoolDestroy assms(1) by (simp add: destroy_def split: option.splits)
next
  case PoolCleanupTick
  have "poolOk (cleanupIdle now m)"
    using assms(1) cleanupIdle_pool [of now m] by (rule poolOk_filter) (simp add: cleanupIdle_def Let_def)
  then show ?thesis using PoolCleanupTick assms(1) by simp
next
  case PoolShutdown
  then show ?thesis using assms(1) by (simp add: shutdown_mgr_def poolOk_def)
next
  case (PoolEvent k ev)
  then show ?thesis using assms(1) by (simp add: onRunner_poolOk)
qed

lemma poolExec_poolOk:
  "poolOk m \<Longrightarrow> list_all (\<lambda>x. nonEmptyChannel (snd x)) ops \<Longrightarrow> poolOk (poolExec m ops)"
  unfolding poolExec_def
  by (induction ops arbitrary: m) (auto simp: poolStep_poolOk)

lemma pool_bounded_nonempty_keys:
  assumes "1 \<le> maxP" "list_all (\<lambda>x. nonEmptyChannel (snd x)) ops"
  shows "int (length (pool (poolExec (newManager cfg (Some maxP) idle) ops))) \<le> maxP"
proof -
  have 0: "poolOk (newManager cfg (Some maxP) idle)"
    using assms(1) by (simp add: poolOk_def newManager_def)
  have f: "maxProcesses (poolStep now opn m) = maxProcesses m" for now opn m
    by (cases opn)
      (auto simp: run_mgr_def runStream_mgr_def dispatch_def getOrCreateRunner_def onRunner_def
        destroy_def shutdown_mgr_def cleanupIdle_def Let_def split: option.splits)
  have "maxProcesses (poolExec m ops) = maxProcesses m" for m
    unfolding poolExec_def by (induction ops arbitrary: m) (auto simp: f)
  then have "maxProcesses (poolExec (newManager cfg (Some maxP) idle) ops) = maxP"
    by (simp add: newManager_def)
  then show ?thesis
    using poolExec_poolOk [OF 0 assms(2)] by (simp add: poolOk_def)
qed

text \<open>
  Claim C3, at the failing input. With capacity 1, a request for the channel with the
  empty id and then one for channel \<open>a\<close>: \<^verbatim>\<open>evictLRU\<close> finds the empty id as the oldest
  channel, the test \<^verbatim>\<open>if (oldestChannel)\<close> fails on it, nothing is evicted and the pool
  holds two entries.
\<close>

theorem pool_exceeds_capacity_with_empty_key:
  "maxProcesses (newManager 300000 (Some 1) None) = 1
   \<and> map fst (pool (poolExec (newManager 300000 (Some 1) None)
        [(0, PoolRun ''hi'' \<lparr>skipPermissions_opt = None, sessionId_opt = None, channelId_opt = Some []\<rparr>),
         (5, PoolRun ''ho'' \<lparr>skipPermissions_opt = None, sessionId_opt = None, channelId_opt = Some ''a''\<rparr>)]))
       = [[], ''a'']
   \<and> released (poolExec (newManager 300000 (Some 1) None)
        [(0, PoolRun ''hi'' \<lparr>skipPermissions_opt = None, sessionId_opt = None, channelId_opt = Some []\<rparr>),
         (5, PoolRun ''ho'' \<lparr>skipPermissions_opt = None, sessionId_opt = None, channelId_opt = Some ''a''\<rparr>)])
       = []"
  by code_simp

end
